theory Spec2Isabelle
  imports Main
begin

section \<open>Python values shared by the models\<close>

text \<open>
  A Python \<^verbatim>\<open>dict\<close> built from a sequence of (key, value) pairs: the pairs are
  inserted in order, so a later pair with the same key replaces an earlier one.
\<close>

fun dict_update_all :: "('k \<rightharpoonup> 'v) \<Rightarrow> ('k \<times> 'v) list \<Rightarrow> ('k \<rightharpoonup> 'v)" where
  "dict_update_all m [] = m"
| "dict_update_all m ((k, v) # kvs) = dict_update_all (m(k \<mapsto> v)) kvs"

definition dict_of :: "('k \<times> 'v) list \<Rightarrow> ('k \<rightharpoonup> 'v)" where
  "dict_of kvs = dict_update_all Map.empty kvs"

text \<open>The exceptions the modelled code raises; those raised with a message carry it.\<close>

datatype error =
    ValueError string
  | TypeError string
  | UnicodeDecodeError
  | UnsatisfiedAssumption
  | KeyError

section \<open>segpy/datatypes.py\<close>

definition DATA_SAMPLE_FORMAT_TO_SEG_Y_TYPE_items :: "(int \<times> string) list" where
  "DATA_SAMPLE_FORMAT_TO_SEG_Y_TYPE_items =
     [(1, ''ibm''),
      (2, ''int32''),
      (3, ''int16''),
      (5, ''float32''),
      (8, ''int8'')]"

definition DATA_SAMPLE_FORMAT_TO_SEG_Y_TYPE :: "int \<rightharpoonup> string" where
  "DATA_SAMPLE_FORMAT_TO_SEG_Y_TYPE = dict_of DATA_SAMPLE_FORMAT_TO_SEG_Y_TYPE_items"

text \<open>\<^verbatim>\<open>{v: k for k, v in DATA_SAMPLE_FORMAT_TO_SEG_Y_TYPE.items()}\<close>\<close>

definition SEG_Y_TYPE_TO_DATA_SAMPLE_FORMAT :: "string \<rightharpoonup> int" where
  "SEG_Y_TYPE_TO_DATA_SAMPLE_FORMAT =
     dict_of (map (\<lambda>(k, v). (v, k)) DATA_SAMPLE_FORMAT_TO_SEG_Y_TYPE_items)"

definition SEG_Y_TYPE_TO_CTYPE :: "string \<rightharpoonup> string" where
  "SEG_Y_TYPE_TO_CTYPE = dict_of
     [(''int32'', ''i''),
      (''uint32'', ''I''),
      (''int16'', ''h''),
      (''uint16'', ''H''),
      (''int8'', ''b''),
      (''uint8'', ''B''),
      (''float32'', ''f''),
      (''ibm'', ''ibm'')]"

definition CTYPE_TO_SIZE :: "string \<rightharpoonup> int" where
  "CTYPE_TO_SIZE = dict_of
     [(''i'', 4),
      (''I'', 4),
      (''h'', 2),
      (''H'', 2),
      (''b'', 1),
      (''B'', 1),
      (''f'', 4),
      (''ibm'', 4)]"

text \<open>
  \<^verbatim>\<open>size_in_bytes\<close>: the \<^verbatim>\<open>KeyError\<close> of the table lookup is turned into a
  \<^verbatim>\<open>ValueError\<close> whose message is \<^verbatim>\<open>"No such C-type {!r}".format(ctype)\<close>.
  The built-in \<^verbatim>\<open>repr\<close> is a parameter of the model.
\<close>

definition size_in_bytes :: "(string \<Rightarrow> string) \<Rightarrow> string \<Rightarrow> error + int" where
  "size_in_bytes repr ctype =
     (case CTYPE_TO_SIZE ctype of
        Some n \<Rightarrow> Inr n
      | None \<Rightarrow> Inl (ValueError (''No such C-type '' @ repr ctype)))"

section \<open>Python built-ins used by test/strategies.py\<close>

text \<open>
  \<^verbatim>\<open>range(start, stop, step)\<close> objects, their length and their elements. The
  constructor raises \<^verbatim>\<open>ValueError\<close> on a zero step.
\<close>

record py_range =
  start :: int
  stop :: int
  step :: int

definition range3 :: "int \<Rightarrow> int \<Rightarrow> int \<Rightarrow> error + py_range" where
  "range3 start' stop' step' =
     (if step' = 0 then Inl (ValueError ''range() arg 3 must not be zero'')
      else Inr \<lparr>start = start', stop = stop', step = step'\<rparr>)"

definition len_range :: "py_range \<Rightarrow> int" where
  "len_range r =
     (if 0 < step r \<and> start r < stop r then (stop r - start r - 1) div step r + 1
      else if step r < 0 \<and> stop r < start r then (start r - stop r - 1) div (- step r) + 1
      else 0)"

definition list_range :: "py_range \<Rightarrow> int list" where
  "list_range r = map (\<lambda>i. start r + int i * step r) [0..<nat (len_range r)]"

text \<open>\<^verbatim>\<open>range(*args)\<close> for a sequence of integer arguments.\<close>

definition range_of_args :: "int list \<Rightarrow> error + py_range" where
  "range_of_args args =
     (case args of
        [stop'] \<Rightarrow> range3 0 stop' 1
      | [start', stop'] \<Rightarrow> range3 start' stop' 1
      | [start', stop', step'] \<Rightarrow> range3 start' stop' step'
      | _ \<Rightarrow> Inl (TypeError ''range expected 1 to 3 arguments''))"

text \<open>\<^verbatim>\<open>str(i)\<close> for an integer: decimal digits, with a minus sign when negative.\<close>

function str_nat :: "nat \<Rightarrow> string" where
  "str_nat n =
     (if n < 10 then [char_of (48 + n)]
      else str_nat (n div 10) @ [char_of (48 + n mod 10)])"
  by pat_completeness auto
termination
  by (relation "measure (\<lambda>n. n)") auto

declare str_nat.simps [simp del]

definition str_int :: "int \<Rightarrow> string" where
  "str_int i = (if i < 0 then CHR ''-'' # str_nat (nat (- i)) else str_nat (nat i))"

text \<open>\<^verbatim>\<open>sep.join(xs)\<close>\<close>

fun join :: "string \<Rightarrow> string list \<Rightarrow> string" where
  "join sep [] = []"
| "join sep [x] = x"
| "join sep (x # y # ys) = x @ sep @ join sep (y # ys)"

text \<open>
  \<^verbatim>\<open>bytes(n)\<close> for an integer \<open>n\<close> is \<open>n\<close> zero bytes (Python 3; the module imports
  \<^verbatim>\<open>itertools.accumulate\<close>, which Python 2 does not have), and
  \<^verbatim>\<open>.decode('ascii')\<close> accepts the bytes below 128.
\<close>

definition bytes :: "int \<Rightarrow> error + char list" where
  "bytes n = (if n < 0 then Inl (ValueError ''negative count'') else Inr (replicate (nat n) (CHR 0x00)))"

definition decode_ascii :: "char list \<Rightarrow> error + string" where
  "decode_ascii bs = (if list_all (\<lambda>b. (of_char b :: nat) < 128) bs then Inr bs else Inl UnicodeDecodeError)"

text \<open>A comprehension whose body can raise: the first exception ends it.\<close>

fun map_result :: "('a \<Rightarrow> error + 'b) \<Rightarrow> 'a list \<Rightarrow> error + 'b list" where
  "map_result f [] = Inr []"
| "map_result f (x # xs) =
     (case f x of
        Inl e \<Rightarrow> Inl e
      | Inr y \<Rightarrow> (case map_result f xs of Inl e \<Rightarrow> Inl e | Inr ys \<Rightarrow> Inr (y # ys)))"

text \<open>\<^verbatim>\<open>itertools.accumulate\<close>: the running sums, the first element as it is.\<close>

fun accumulate_from :: "int \<Rightarrow> int list \<Rightarrow> int list" where
  "accumulate_from tot [] = []"
| "accumulate_from tot (x # xs) = (tot + x) # accumulate_from (tot + x) xs"

definition accumulate :: "int list \<Rightarrow> int list" where
  "accumulate xs = (case xs of [] \<Rightarrow> [] | x # rest \<Rightarrow> x # accumulate_from x rest)"

section \<open>The strategies of the test-generation library\<close>

text \<open>
  A strategy is modelled by the values it can produce. \<^verbatim>\<open>integers(min_value, max_value)\<close>
  produces the integers within the bounds that are given (both inclusive), and
  \<^verbatim>\<open>lists(elements, min_size, max_size)\<close> the lists of produced elements whose
  length is within the bounds.
\<close>

definition integers :: "int option \<Rightarrow> int option \<Rightarrow> int \<Rightarrow> bool" where
  "integers min_value max_value v =
     ((case min_value of None \<Rightarrow> True | Some lo \<Rightarrow> lo \<le> v)
      \<and> (case max_value of None \<Rightarrow> True | Some hi \<Rightarrow> v \<le> hi))"

definition lists_of :: "('a \<Rightarrow> bool) \<Rightarrow> int \<Rightarrow> int \<Rightarrow> 'a list \<Rightarrow> bool" where
  "lists_of elements min_size max_size xs =
     (min_size \<le> int (length xs) \<and> int (length xs) \<le> max_size \<and> list_all elements xs)"

definition PRINTABLE_ASCII_RANGE :: "int \<times> int" where
  "PRINTABLE_ASCII_RANGE = (32, 127)"

text \<open>
  \<^verbatim>\<open>''.join(map(chr, range(*PRINTABLE_ASCII_RANGE)))\<close>; \<^verbatim>\<open>chr\<close> is applied to the
  code points 32 to 126 only, which are single bytes.
\<close>

definition PRINTABLE_ASCII_ALPHABET :: string where
  "PRINTABLE_ASCII_ALPHABET =
     map (\<lambda>i. char_of (nat i))
       (list_range \<lparr>start = fst PRINTABLE_ASCII_RANGE, stop = snd PRINTABLE_ASCII_RANGE, step = 1\<rparr>)"

subsection \<open>multiline_ascii_encodable_text\<close>

definition decode_line :: "int \<Rightarrow> error + string" where
  "decode_line x = (case bytes x of Inl e \<Rightarrow> Inl e | Inr bs \<Rightarrow> decode_ascii bs)"

definition join_lines :: "int list \<Rightarrow> error + string" where
  "join_lines xs =
     (case map_result decode_line xs of Inl e \<Rightarrow> Inl e | Inr ls \<Rightarrow> Inr (join [CHR 0x0A] ls))"

inductive multiline_ascii_encodable_text :: "int \<Rightarrow> int \<Rightarrow> string \<Rightarrow> bool"
  for min_num_lines max_num_lines :: int
  where
    "integers (Some min_num_lines) (Some max_num_lines) n \<Longrightarrow>
     lists_of (integers (Some (fst PRINTABLE_ASCII_RANGE)) (Some (snd PRINTABLE_ASCII_RANGE))) n n xs \<Longrightarrow>
     join_lines xs = Inr s \<Longrightarrow>
     multiline_ascii_encodable_text min_num_lines max_num_lines s"

subsection \<open>spaced_ranges\<close>

text \<open>
  Modelled from the spec: \<^verbatim>\<open>segpy.util.batched\<close> is imported by the strategies and is
  not part of the sources at hand. The spec's batching operation: groups of
  \<open>batch_size\<close> elements in the original order; without a padding value the final
  group is short when the length is not a multiple of the batch size, with a padding
  value it is filled up with copies of it; a batch size of zero or less is an invalid
  argument.
\<close>

function batches :: "nat \<Rightarrow> 'a list \<Rightarrow> 'a list list" where
  "batches n xs = (if n = 0 \<or> xs = [] then [] else take n xs # batches n (drop n xs))"
  by pat_completeness auto
termination
  by (relation "measure (\<lambda>(n, xs). length xs)") auto

declare batches.simps [simp del]

text \<open>
  Modelled from the spec: with a padding value, the final group is extended with
  copies of it until it has \<open>batch_size\<close> elements; without one it stays short.
\<close>

definition pad_batch :: "nat \<Rightarrow> 'a option \<Rightarrow> 'a list \<Rightarrow> 'a list" where
  "pad_batch n padding b =
     (case padding of None \<Rightarrow> b | Some p \<Rightarrow> b @ replicate (n - length b) p)"

text \<open>
  Modelled from the spec: \<^verbatim>\<open>batched(items, batch_size, padding)\<close>; a batch size of
  zero or less fails with an Invalid-Argument condition, whose message the spec does
  not give.
\<close>

definition batched :: "'a list \<Rightarrow> int \<Rightarrow> 'a option \<Rightarrow> error + 'a list list" where
  "batched items batch_size padding =
     (if batch_size \<le> 0 then Inl (ValueError ''batch_size'')
      else Inr (map (pad_batch (nat batch_size) padding) (batches (nat batch_size) items)))"

text \<open>
  The pipeline of \<^verbatim>\<open>spaced_ranges\<close>: a count \<open>n\<close> within the configured bounds, a list
  of \<open>2 * n\<close> intervals, their running sums, the sums batched in twos, and
  \<^verbatim>\<open>range(*pair)\<close> for every batch.
\<close>

inductive spaced_ranges :: "int \<Rightarrow> int \<Rightarrow> int \<Rightarrow> int \<Rightarrow> py_range list \<Rightarrow> bool"
  for min_num_ranges max_num_ranges min_interval max_interval :: int
  where
    "integers (Some min_num_ranges) (Some max_num_ranges) n \<Longrightarrow>
     lists_of (integers (Some min_interval) (Some max_interval)) (2 * n) (2 * n) lst \<Longrightarrow>
     batched (accumulate lst) 2 None = Inr pairs \<Longrightarrow>
     map_result range_of_args pairs = Inr rs \<Longrightarrow>
     spaced_ranges min_num_ranges max_num_ranges min_interval max_interval rs"

subsection \<open>ranges\<close>

record ranges_args =
  min_start_value :: "int option"
  max_start_value :: "int option"
  min_size :: "int option"
  max_size :: "int option"
  min_step_value :: "int option"
  max_step_value :: "int option"

text \<open>The defaults of the keyword arguments: all \<^verbatim>\<open>None\<close>.\<close>

definition ranges_defaults :: ranges_args where
  "ranges_defaults =
     \<lparr>min_start_value = None, max_start_value = None, min_size = None, max_size = None,
      min_step_value = None, max_step_value = None\<rparr>"

text \<open>
  The body of the composite strategy, as a function of the three values it draws
  (start, length, step). The checks of the sizes come before every draw;
  \<^verbatim>\<open>assume(step != 0)\<close> rejects the example with \<^verbatim>\<open>UnsatisfiedAssumption\<close>.
\<close>

definition ranges :: "ranges_args \<Rightarrow> int \<times> int \<times> int \<Rightarrow> error + py_range" where
  "ranges a drawn =
     (let min_size' = (case min_size a of None \<Rightarrow> 0 | Some m \<Rightarrow> m) in
      if min_size' < 0 then
        Inl (ValueError (''Value of '' @ str_int min_size' @ '' as min_size for ranges() is negative.''))
      else if (case max_size a of None \<Rightarrow> False | Some mx \<Rightarrow> mx < min_size') then
        Inl (ValueError (''Value of '' @ str_int (the (max_size a))
               @ '' as max_size for ranges() is less than min_size='' @ str_int min_size'))
      else
        (case drawn of (start', length', step') \<Rightarrow>
           if step' = 0 then Inl UnsatisfiedAssumption
           else range3 start' (start' + step' * length') step'))"

text \<open>The values the three draws can take.\<close>

definition ranges_draws :: "ranges_args \<Rightarrow> int \<times> int \<times> int \<Rightarrow> bool" where
  "ranges_draws a drawn =
     (case drawn of (start', length', step') \<Rightarrow>
        integers (min_start_value a) (max_start_value a) start'
        \<and> integers (Some (case min_size a of None \<Rightarrow> 0 | Some m \<Rightarrow> m)) (max_size a) length'
        \<and> integers (min_step_value a) (max_step_value a) step')"

inductive ranges_produces :: "ranges_args \<Rightarrow> py_range \<Rightarrow> bool" for a :: ranges_args where
  "ranges_draws a drawn \<Longrightarrow> ranges a drawn = Inr r \<Longrightarrow> ranges_produces a r"

subsection \<open>items2d\<close>

record Items2D =
  i_range :: py_range
  j_range :: py_range
  items :: "(int \<times> int) \<rightharpoonup> int"

inductive items2d :: "int option \<Rightarrow> int option \<Rightarrow> Items2D \<Rightarrow> bool"
  for i_size j_size :: "int option"
  where
    "ranges_produces (ranges_defaults\<lparr>min_size := Some 1, max_size := i_size, min_step_value := Some 1\<rparr>) ir \<Longrightarrow>
     ranges_produces (ranges_defaults\<lparr>min_size := Some 1, max_size := j_size, min_step_value := Some 1\<rparr>) jr \<Longrightarrow>
     size' = len_range ir * len_range jr \<Longrightarrow>
     lists_of (integers None None) size' size' values \<Longrightarrow>
     items2d i_size j_size
       \<lparr>i_range = ir, j_range = jr,
        items = dict_of (zip (List.product (list_range ir) (list_range jr)) values)\<rparr>"

subsection \<open>Strategies held in dictionaries: header and fixed_dict_of_printable_strings\<close>

text \<open>
  The values these strategies produce or are given: integers, strings, and any other
  object a caller supplies. The strategies themselves are data here, since the
  functions store them in dictionaries: \<^verbatim>\<open>just(v)\<close>, \<^verbatim>\<open>text(alphabet=...)\<close>,
  \<^verbatim>\<open>sampled_from(xs)\<close> and \<^verbatim>\<open>integers(lo, hi)\<close>; \<open>draws\<close> says which values each
  of them produces.
\<close>

datatype 'a pyobj = PyInt int | PyStr string | PyObj 'a

datatype 'a strategy =
    Just "'a pyobj"
  | Text string
  | Sampled_from "int list"
  | Integers int int

fun draws :: "'a strategy \<Rightarrow> 'a pyobj \<Rightarrow> bool" where
  "draws (Just v) x = (x = v)"
| "draws (Text alphabet) x = (case x of PyStr s \<Rightarrow> list_all (\<lambda>c. c \<in> set alphabet) s | _ \<Rightarrow> False)"
| "draws (Sampled_from xs) x = (case x of PyInt i \<Rightarrow> i \<in> set xs | _ \<Rightarrow> False)"
| "draws (Integers lo hi) x = (case x of PyInt i \<Rightarrow> integers (Some lo) (Some hi) i | _ \<Rightarrow> False)"

text \<open>
  \<^verbatim>\<open>fixed_dictionaries(d)\<close> produces the dictionaries with exactly the keys of \<open>d\<close>,
  each key bound to a value its strategy produces.
\<close>

definition fixed_dictionaries :: "(string \<rightharpoonup> 'a strategy) \<Rightarrow> (string \<rightharpoonup> 'a pyobj) \<Rightarrow> bool" where
  "fixed_dictionaries d m = (\<forall>k. rel_option draws (d k) (m k))"

text \<open>
  \<^verbatim>\<open>fixed_dict_of_printable_strings(keys, **overrides)\<close>. The keyword arguments are
  the list of (name, value) pairs in the order given.
\<close>

definition fixed_dict_strategies :: "string list \<Rightarrow> (string \<times> 'a pyobj) list \<Rightarrow> (string \<rightharpoonup> 'a strategy)" where
  "fixed_dict_strategies keys overrides =
     dict_update_all
       (dict_of (map (\<lambda>key. (key, Text PRINTABLE_ASCII_ALPHABET)) keys))
       (map (\<lambda>(keyword, v). (keyword, Just v)) overrides)"

definition fixed_dict_of_printable_strings ::
  "string list \<Rightarrow> (string \<times> 'a pyobj) list \<Rightarrow> (string \<rightharpoonup> 'a pyobj) \<Rightarrow> bool" where
  "fixed_dict_of_printable_strings keys overrides =
     fixed_dictionaries (fixed_dict_strategies keys overrides)"

text \<open>
  \<^verbatim>\<open>header(header_class, **kwargs)\<close>. What the function reads of a header class: its
  \<^verbatim>\<open>__name__\<close>, its \<^verbatim>\<open>ordered_field_names()\<close> and, for a field name, the
  \<^verbatim>\<open>value_type\<close> of that field, which either has \<^verbatim>\<open>VALUES\<close> or has \<^verbatim>\<open>MINIMUM\<close>
  and \<^verbatim>\<open>MAXIMUM\<close>. The header classes themselves are not part of the sources at
  hand. A header instance \<^verbatim>\<open>header_class(**kw)\<close> is represented by its dictionary
  of field values.
\<close>

datatype value_type =
    Enumerated (VALUES: "int list")
  | Bounded (MINIMUM: int) (MAXIMUM: int)

record header_class =
  class_name :: string
  ordered_field_names :: "string list"
  field_value_type :: "string \<Rightarrow> value_type"

definition kwargs_pop :: "string \<Rightarrow> (string \<times> 'v) list \<Rightarrow> (string \<times> 'v) list" where
  "kwargs_pop field_name kwargs = filter (\<lambda>(k, v). k \<noteq> field_name) kwargs"

text \<open>
  The loop over the field names (lines 60 to 69), on the keyword arguments still left
  and the dictionary of field strategies built so far.
\<close>

fun header_loop ::
  "header_class \<Rightarrow> string list \<Rightarrow> (string \<times> 'a pyobj) list \<Rightarrow> (string \<rightharpoonup> 'a strategy)
     \<Rightarrow> (string \<times> 'a pyobj) list \<times> (string \<rightharpoonup> 'a strategy)" where
  "header_loop hc [] kwargs field_strategies = (kwargs, field_strategies)"
| "header_loop hc (field_name # rest) kwargs field_strategies =
     (case map_of kwargs field_name of
        Some v \<Rightarrow>
          header_loop hc rest (kwargs_pop field_name kwargs) (field_strategies(field_name \<mapsto> Just v))
      | None \<Rightarrow>
          header_loop hc rest kwargs
            (field_strategies(field_name \<mapsto>
               (case field_value_type hc field_name of
                  Enumerated vs \<Rightarrow> Sampled_from (sort vs)
                | Bounded lo hi \<Rightarrow> Integers lo hi))))"

definition header_field_strategies ::
  "header_class \<Rightarrow> (string \<times> 'a pyobj) list \<Rightarrow> error + (string \<rightharpoonup> 'a strategy)" where
  "header_field_strategies hc kwargs =
     (case header_loop hc (ordered_field_names hc) kwargs Map.empty of
        (kwargs', field_strategies) \<Rightarrow>
          if length kwargs' > 0 then
            Inl (TypeError (''Unrecognised binary header field names ''
                   @ join '', '' (map fst kwargs') @ '' for '' @ class_name hc))
          else Inr field_strategies)"

definition header ::
  "header_class \<Rightarrow> (string \<times> 'a pyobj) list \<Rightarrow> error + ((string \<rightharpoonup> 'a pyobj) \<Rightarrow> bool)" where
  "header hc kwargs =
     (case header_field_strategies hc kwargs of
        Inl e \<Rightarrow> Inl e
      | Inr field_strategies \<Rightarrow> Inr (fixed_dictionaries field_strategies))"

text \<open>
  The strategy \<^verbatim>\<open>header\<close> is expected to hold for a declared field: \<^verbatim>\<open>just\<close> of the
  supplied value when the keyword arguments name the field, and otherwise the
  strategy over the field's legal values.
\<close>

definition field_strategy :: "header_class \<Rightarrow> (string \<times> 'a pyobj) list \<Rightarrow> string \<Rightarrow> 'a strategy" where
  "field_strategy hc kwargs f =
     (case map_of kwargs f of
        Some v \<Rightarrow> Just v
      | None \<Rightarrow>
          (case field_value_type hc f of
             Enumerated vs \<Rightarrow> Sampled_from (sort vs)
           | Bounded lo hi \<Rightarrow> Integers lo hi))"

section \<open>The catalog and its builder\<close>

text \<open>
  Modelled from the spec: \<^verbatim>\<open>segpy.catalog\<close> (\<^verbatim>\<open>CatalogBuilder\<close> and the catalogs it
  creates) is imported by the tests and is not part of the sources at hand. The
  definitions below follow section 4.4 of the spec: a catalog is one of five
  representations; the builder analyses the keys for an arithmetic progression (for
  pair keys: a full cross product of two progressions), tests the values against
  the classes with the smallest representation first, accepts a class only when it
  fits every pair exactly, and otherwise copies the mapping.

  A mapping is the list of its (key, value) pairs, the keys distinct; a key is an
  integer or a pair of integers.
\<close>

datatype key = K1 int | K2 int int

datatype 'a catalog =
    ConstantRegular py_range int
  | RegularKeys py_range "int list"
  | LinearRegular int int int int nat
  | LinearRegular2D py_range py_range int int int
  | Arbitrary "(key \<times> 'a pyobj) list"

text \<open>
  Modelled from the spec: the membership-in-range test of the lookups and the index
  \<open>(key - start) / step\<close> of a key in its range.
\<close>

definition in_range :: "py_range \<Rightarrow> int \<Rightarrow> bool" where
  "in_range r k =
     ((if 0 < step r then start r \<le> k \<and> k < stop r else stop r < k \<and> k \<le> start r)
      \<and> (k - start r) mod step r = 0)"

definition index_in_range :: "py_range \<Rightarrow> int \<Rightarrow> nat" where
  "index_in_range r k = nat ((k - start r) div step r)"

text \<open>
  Modelled from the spec: lookup of a key's value, by the closed form of each class;
  it fails with Key-Not-Found for an absent key.
\<close>

fun catalog_lookup :: "'a catalog \<Rightarrow> key \<Rightarrow> error + 'a pyobj" where
  "catalog_lookup (ConstantRegular r v) (K1 k) =
     (if in_range r k then Inr (PyInt v) else Inl KeyError)"
| "catalog_lookup (RegularKeys r vs) (K1 k) =
     (if in_range r k \<and> index_in_range r k < length vs then Inr (PyInt (vs ! index_in_range r k))
      else Inl KeyError)"
| "catalog_lookup (LinearRegular key_start key_step value_start value_step n) (K1 k) =
     (let r = \<lparr>start = key_start, stop = key_start + key_step * int n, step = key_step\<rparr> in
      if in_range r k then Inr (PyInt (value_start + ((k - key_start) div key_step) * value_step))
      else Inl KeyError)"
| "catalog_lookup (LinearRegular2D ir jr a b c) (K2 i j) =
     (if in_range ir i \<and> in_range jr j then Inr (PyInt (a * i + b * j + c)) else Inl KeyError)"
| "catalog_lookup (Arbitrary kvs) k =
     (case map_of kvs k of Some v \<Rightarrow> Inr v | None \<Rightarrow> Inl KeyError)"
| "catalog_lookup _ _ = Inl KeyError"

text \<open>Modelled from the spec: the membership test for a key.\<close>

definition catalog_contains :: "'a catalog \<Rightarrow> key \<Rightarrow> bool" where
  "catalog_contains c k = (\<not> isl (catalog_lookup c k))"

text \<open>Modelled from the spec: enumeration of all (key, value) pairs of a catalog.\<close>

fun catalog_items :: "'a catalog \<Rightarrow> (key \<times> 'a pyobj) list" where
  "catalog_items (ConstantRegular r v) = map (\<lambda>k. (K1 k, PyInt v)) (list_range r)"
| "catalog_items (RegularKeys r vs) = zip (map K1 (list_range r)) (map PyInt vs)"
| "catalog_items (LinearRegular key_start key_step value_start value_step n) =
     map (\<lambda>i. (K1 (key_start + int i * key_step), PyInt (value_start + int i * value_step))) [0..<n]"
| "catalog_items (LinearRegular2D ir jr a b c) =
     map (\<lambda>(i, j). (K2 i j, PyInt (a * i + b * j + c))) (List.product (list_range ir) (list_range jr))"
| "catalog_items (Arbitrary kvs) = kvs"

text \<open>
  Modelled from the spec: the analysis of the keys. The sorted keys form a single arithmetic progression
  exactly when they are the elements of the range from the first key with the
  difference of the first two keys as step. A single key is a progression of step 1.
\<close>

definition regular_range :: "int list \<Rightarrow> py_range option" where
  "regular_range ks =
     (case ks of
        [] \<Rightarrow> None
      | [k] \<Rightarrow> Some \<lparr>start = k, stop = k + 1, step = 1\<rparr>
      | k0 # k1 # _ \<Rightarrow>
          (let r = \<lparr>start = k0, stop = k0 + (k1 - k0) * int (length ks), step = k1 - k0\<rparr>
           in if 0 < k1 - k0 \<and> list_range r = ks then Some r else None))"

text \<open>
  Modelled from the spec: the classes 1 to 4 need integer values; a pair of the
  mapping with an integer key, or with a pair key, and an integer value.
\<close>

fun entry1 :: "key \<times> 'a pyobj \<Rightarrow> (int \<times> int) option" where
  "entry1 (K1 k, PyInt v) = Some (k, v)"
| "entry1 _ = None"

fun entry2 :: "key \<times> 'a pyobj \<Rightarrow> ((int \<times> int) \<times> int) option" where
  "entry2 (K2 i j, PyInt v) = Some ((i, j), v)"
| "entry2 _ = None"

fun traverse :: "('a \<Rightarrow> 'b option) \<Rightarrow> 'a list \<Rightarrow> 'b list option" where
  "traverse f [] = Some []"
| "traverse f (x # xs) =
     (case f x of
        None \<Rightarrow> None
      | Some y \<Rightarrow> (case traverse f xs of None \<Rightarrow> None | Some ys \<Rightarrow> Some (y # ys)))"

text \<open>
  Modelled from the spec: integer keys. Constant values (class 1), else values in arithmetic progression
  along the keys (class 3), else the values stored in key order (class 2).
\<close>

definition create1 :: "(key \<times> 'a pyobj) list \<Rightarrow> (int \<times> int) list \<Rightarrow> 'a catalog" where
  "create1 mapping kvs =
     (let sorted_kvs = sort_key fst kvs; ks = map fst sorted_kvs; vs = map snd sorted_kvs in
      case regular_range ks of
        None \<Rightarrow> Arbitrary mapping
      | Some r \<Rightarrow>
          (case vs of
             [] \<Rightarrow> Arbitrary mapping
           | v0 # rest \<Rightarrow>
               if list_all (\<lambda>v. v = v0) rest then ConstantRegular r v0
               else
                 (let value_step = hd rest - v0 in
                  if vs = map (\<lambda>i. v0 + int i * value_step) [0..<length vs]
                  then LinearRegular (start r) (step r) v0 value_step (length ks)
                  else RegularKeys r vs)))"

text \<open>
  Modelled from the spec: pair keys. Both components in arithmetic progression, every combination present,
  and the values an affine function \<open>a * i + b * j + c\<close> of the key, the coefficients
  taken from the values at the corners (class 4).
\<close>

definition corner_slope :: "((int \<times> int) \<times> int) list \<Rightarrow> int \<times> int \<Rightarrow> int \<times> int \<Rightarrow> int" where
  "corner_slope ijvs origin corner =
     (case (map_of ijvs origin, map_of ijvs corner) of
        (Some v0, Some v1) \<Rightarrow>
          (let distance = (fst corner - fst origin) + (snd corner - snd origin)
           in if distance = 0 then 0 else (v1 - v0) div distance)
      | _ \<Rightarrow> 0)"

definition create2 :: "(key \<times> 'a pyobj) list \<Rightarrow> ((int \<times> int) \<times> int) list \<Rightarrow> 'a catalog" where
  "create2 mapping ijvs =
     (let is = sort (remdups (map (fst \<circ> fst) ijvs));
          js = sort (remdups (map (snd \<circ> fst) ijvs))
      in case (regular_range is, regular_range js) of
           (Some ir, Some jr) \<Rightarrow>
             if length ijvs = length is * length js then
               (let origin = (hd is, hd js);
                    a = corner_slope ijvs origin (last is, hd js);
                    b = corner_slope ijvs origin (hd is, last js);
                    c = (case map_of ijvs origin of Some v0 \<Rightarrow> v0 - a * hd is - b * hd js | None \<Rightarrow> 0)
                in if list_all (\<lambda>((i, j), v). a * i + b * j + c = v) ijvs
                   then LinearRegular2D ir jr a b c
                   else Arbitrary mapping)
             else Arbitrary mapping
         | _ \<Rightarrow> Arbitrary mapping)"

text \<open>Modelled from the spec: \<^verbatim>\<open>CatalogBuilder(mapping).create()\<close>.\<close>

definition create :: "(key \<times> 'a pyobj) list \<Rightarrow> 'a catalog" where
  "create mapping =
     (case traverse entry1 mapping of
        Some kvs \<Rightarrow> create1 mapping kvs
      | None \<Rightarrow>
          (case traverse entry2 mapping of
             Some ijvs \<Rightarrow> create2 mapping ijvs
           | None \<Rightarrow> Arbitrary mapping))"

text \<open>
  Modelled from the spec: the invariant of the representations the builder creates: the ranges of keys ascend, the stored values of
  class 2 are as many as the keys, and a copied mapping has distinct keys.
\<close>

fun catalog_wf :: "'a catalog \<Rightarrow> bool" where
  "catalog_wf (ConstantRegular r v) = (0 < step r)"
| "catalog_wf (RegularKeys r vs) = (0 < step r \<and> int (length vs) = len_range r)"
| "catalog_wf (LinearRegular key_start key_step value_start value_step n) = (0 < key_step)"
| "catalog_wf (LinearRegular2D ir jr a b c) = (0 < step ir \<and> 0 < step jr)"
| "catalog_wf (Arbitrary kvs) = distinct (map fst kvs)"

section \<open>Properties of Python dictionaries\<close>

lemma dict_update_all_SomeD:
  "dict_update_all m0 kvs k = Some v \<Longrightarrow> (k, v) \<in> set kvs \<or> m0 k = Some v"
  by (induction m0 kvs rule: dict_update_all.induct) (auto split: if_splits)

lemma dict_of_SomeD: "dict_of kvs k = Some v \<Longrightarrow> (k, v) \<in> set kvs"
  using dict_update_all_SomeD [of Map.empty kvs k v] by (simp add: dict_of_def)

lemma dom_dict_update_all: "dom (dict_update_all m kvs) = dom m \<union> fst ` set kvs"
proof (induction kvs arbitrary: m)
  case Nil
  then show ?case by simp
next
  case (Cons kv kvs)
  obtain k v where kv: "kv = (k, v)" by (cases kv)
  have "dom (dict_update_all m (kv # kvs)) = dom (dict_update_all (m(k \<mapsto> v)) kvs)"
    by (simp add: kv)
  also have "\<dots> = dom (m(k \<mapsto> v)) \<union> fst ` set kvs"
    by (rule Cons.IH)
  also have "\<dots> = dom m \<union> fst ` set (kv # kvs)"
    by (simp add: kv)
  finally show ?case .
qed

lemma dom_dict_of: "dom (dict_of kvs) = fst ` set kvs"
  by (simp add: dict_of_def dom_dict_update_all)

lemma dict_update_all_append:
  "dict_update_all m (xs @ ys) = dict_update_all (dict_update_all m xs) ys"
proof (induction xs arbitrary: m)
  case Nil
  show ?case by simp
next
  case (Cons kv xs)
  obtain k v where kv: "kv = (k, v)" by (cases kv)
  have "dict_update_all m ((kv # xs) @ ys) = dict_update_all (m(k \<mapsto> v)) (xs @ ys)"
    by (simp add: kv)
  also have "\<dots> = dict_update_all (dict_update_all (m(k \<mapsto> v)) xs) ys"
    by (rule Cons.IH)
  also have "\<dots> = dict_update_all (dict_update_all m (kv # xs)) ys"
    by (simp add: kv)
  finally show ?case .
qed

lemma dict_update_all_map_of: "dict_update_all m kvs = m ++ map_of (rev kvs)"
proof (induction kvs rule: rev_induct)
  case Nil
  show ?case by simp
next
  case (snoc kv kvs)
  obtain k v where kv: "kv = (k, v)" by (cases kv)
  have "dict_update_all m (kvs @ [kv]) = (dict_update_all m kvs)(k \<mapsto> v)"
    by (simp add: dict_update_all_append kv)
  also have "\<dots> = (m ++ map_of (rev kvs))(k \<mapsto> v)"
    by (simp only: snoc.IH)
  also have "\<dots> = m ++ map_of (rev (kvs @ [kv]))"
    by (simp add: kv)
  finally show ?case .
qed

lemma dict_of_map_of: "dict_of kvs = map_of (rev kvs)"
  by (simp add: dict_of_def dict_update_all_map_of)

section \<open>Properties of the registry tables\<close>

lemma DATA_SAMPLE_FORMAT_TO_SEG_Y_TYPE_unfold:
  "DATA_SAMPLE_FORMAT_TO_SEG_Y_TYPE =
     [1 \<mapsto> ''ibm'', 2 \<mapsto> ''int32'', 3 \<mapsto> ''int16'', 5 \<mapsto> ''float32'', 8 \<mapsto> ''int8'']"
  by (simp add: DATA_SAMPLE_FORMAT_TO_SEG_Y_TYPE_def
      DATA_SAMPLE_FORMAT_TO_SEG_Y_TYPE_items_def dict_of_def)

lemma SEG_Y_TYPE_TO_DATA_SAMPLE_FORMAT_unfold:
  "SEG_Y_TYPE_TO_DATA_SAMPLE_FORMAT =
     [''ibm'' \<mapsto> 1, ''int32'' \<mapsto> 2, ''int16'' \<mapsto> 3, ''float32'' \<mapsto> 5, ''int8'' \<mapsto> 8]"
  by (simp add: SEG_Y_TYPE_TO_DATA_SAMPLE_FORMAT_def
      DATA_SAMPLE_FORMAT_TO_SEG_Y_TYPE_items_def dict_of_def)

lemma SEG_Y_TYPE_TO_CTYPE_unfold:
  "SEG_Y_TYPE_TO_CTYPE =
     [''int32'' \<mapsto> ''i'', ''uint32'' \<mapsto> ''I'', ''int16'' \<mapsto> ''h'', ''uint16'' \<mapsto> ''H'',
      ''int8'' \<mapsto> ''b'', ''uint8'' \<mapsto> ''B'', ''float32'' \<mapsto> ''f'', ''ibm'' \<mapsto> ''ibm'']"
  by (simp add: SEG_Y_TYPE_TO_CTYPE_def dict_of_def)

lemma CTYPE_TO_SIZE_unfold:
  "CTYPE_TO_SIZE =
     [''i'' \<mapsto> 4, ''I'' \<mapsto> 4, ''h'' \<mapsto> 2, ''H'' \<mapsto> 2,
      ''b'' \<mapsto> 1, ''B'' \<mapsto> 1, ''f'' \<mapsto> 4, ''ibm'' \<mapsto> 4]"
  by (simp add: CTYPE_TO_SIZE_def dict_of_def)

lemma CTYPE_TO_SIZE_None:
  "ctype \<notin> {''i'', ''I'', ''h'', ''H'', ''b'', ''B'', ''f'', ''ibm''} \<Longrightarrow> CTYPE_TO_SIZE ctype = None"
  unfolding CTYPE_TO_SIZE_unfold by simp

text \<open>
  C4, as stated: every internal type name of the wire-encoding table has a tag of exactly
  one character. The entry for \<^verbatim>\<open>ibm\<close> is the three-character tag \<^verbatim>\<open>ibm\<close>, so the
  statement fails there.
\<close>

theorem ctype_single_character_counterexample:
  "''ibm'' \<in> dom SEG_Y_TYPE_TO_CTYPE
   \<and> SEG_Y_TYPE_TO_CTYPE ''ibm'' = Some ''ibm''
   \<and> length ''ibm'' = 3"
  by (simp add: SEG_Y_TYPE_TO_CTYPE_unfold)

text \<open>
  C4, amended: the wire-encoding table is defined on exactly the eight internal type
  names; the tag of every name other than \<^verbatim>\<open>ibm\<close> is a single character, and the tag
  of \<^verbatim>\<open>ibm\<close> is the string \<^verbatim>\<open>ibm\<close> itself (three characters).
\<close>

theorem ctype_tag_lengths:
  "dom SEG_Y_TYPE_TO_CTYPE =
     {''int32'', ''uint32'', ''int16'', ''uint16'', ''int8'', ''uint8'', ''float32'', ''ibm''}
   \<and> (SEG_Y_TYPE_TO_CTYPE t = Some tag \<longrightarrow>
        (if t = ''ibm'' then tag = ''ibm'' \<and> length tag = 3 else length tag = 1))"
proof
  show "dom SEG_Y_TYPE_TO_CTYPE =
     {''int32'', ''uint32'', ''int16'', ''uint16'', ''int8'', ''uint8'', ''float32'', ''ibm''}"
    unfolding SEG_Y_TYPE_TO_CTYPE_unfold by auto
  show "SEG_Y_TYPE_TO_CTYPE t = Some tag \<longrightarrow>
        (if t = ''ibm'' then tag = ''ibm'' \<and> length tag = 3 else length tag = 1)"
  proof
    assume a: "SEG_Y_TYPE_TO_CTYPE t = Some tag"
    show "if t = ''ibm'' then tag = ''ibm'' \<and> length tag = 3 else length tag = 1"
      using dict_of_SomeD [OF a [unfolded SEG_Y_TYPE_TO_CTYPE_def]] by auto
  qed
qed

theorem ctype_tag_lengths_witness:
  "SEG_Y_TYPE_TO_CTYPE ''int16'' = Some ''h'' \<and> length ''h'' = 1
   \<and> SEG_Y_TYPE_TO_CTYPE ''ibm'' = Some ''ibm'' \<and> length ''ibm'' = 3"
proof -
  have a: "SEG_Y_TYPE_TO_CTYPE ''int16'' = Some ''h''"
    and b: "SEG_Y_TYPE_TO_CTYPE ''ibm'' = Some ''ibm''"
    by (simp_all add: SEG_Y_TYPE_TO_CTYPE_unfold)
  show ?thesis
    using a b ctype_tag_lengths [of "''int16''" "''h''"] ctype_tag_lengths [of "''ibm''" "''ibm''"]
    by simp
qed

text \<open>
  C5: \<^verbatim>\<open>size_in_bytes\<close> returns the declared size (4, 4, 2, 2, 1, 1, 4, 4) for the eight
  registered tags \<^verbatim>\<open>i I h H b B f ibm\<close>; for every other tag it raises a
  \<^verbatim>\<open>ValueError\<close> whose message carries the representation of the tag; and it raises
  exactly when the tag is not one of the eight.
\<close>

theorem size_in_bytes_spec:
  "size_in_bytes repr ''i'' = Inr 4 \<and> size_in_bytes repr ''I'' = Inr 4
   \<and> size_in_bytes repr ''h'' = Inr 2 \<and> size_in_bytes repr ''H'' = Inr 2
   \<and> size_in_bytes repr ''b'' = Inr 1 \<and> size_in_bytes repr ''B'' = Inr 1
   \<and> size_in_bytes repr ''f'' = Inr 4 \<and> size_in_bytes repr ''ibm'' = Inr 4
   \<and> (ctype \<notin> {''i'', ''I'', ''h'', ''H'', ''b'', ''B'', ''f'', ''ibm''} \<longrightarrow>
        size_in_bytes repr ctype = Inl (ValueError (''No such C-type '' @ repr ctype)))
   \<and> (isl (size_in_bytes repr ctype) \<longleftrightarrow>
        ctype \<notin> {''i'', ''I'', ''h'', ''H'', ''b'', ''B'', ''f'', ''ibm''})"
proof -
  have sizes: "size_in_bytes repr ''i'' = Inr 4" "size_in_bytes repr ''I'' = Inr 4"
    "size_in_bytes repr ''h'' = Inr 2" "size_in_bytes repr ''H'' = Inr 2"
    "size_in_bytes repr ''b'' = Inr 1" "size_in_bytes repr ''B'' = Inr 1"
    "size_in_bytes repr ''f'' = Inr 4" "size_in_bytes repr ''ibm'' = Inr 4"
    by (simp_all add: size_in_bytes_def CTYPE_TO_SIZE_unfold)
  have out: "size_in_bytes repr ctype = Inl (ValueError (''No such C-type '' @ repr ctype))"
    if "ctype \<notin> {''i'', ''I'', ''h'', ''H'', ''b'', ''B'', ''f'', ''ibm''}"
    using CTYPE_TO_SIZE_None [OF that] by (simp add: size_in_bytes_def)
  have inside: "\<not> isl (size_in_bytes repr ctype)"
    if "ctype \<in> {''i'', ''I'', ''h'', ''H'', ''b'', ''B'', ''f'', ''ibm''}"
    using that sizes by auto
  show ?thesis
    using sizes out inside by (metis sum.disc(1))
qed

theorem size_in_bytes_spec_witness:
  "size_in_bytes (\<lambda>s. [CHR 0x27] @ s @ [CHR 0x27]) ''q''
     = Inl (ValueError (''No such C-type '' @ [CHR 0x27] @ ''q'' @ [CHR 0x27]))
   \<and> isl (size_in_bytes (\<lambda>s. [CHR 0x27] @ s @ [CHR 0x27]) ''q'')
   \<and> size_in_bytes (\<lambda>s. [CHR 0x27] @ s @ [CHR 0x27]) ''ibm'' = Inr 4"
  using size_in_bytes_spec [of "\<lambda>s. [CHR 0x27] @ s @ [CHR 0x27]" "''q''"]
  by simp

text \<open>
  C6: the sample-format table is defined on exactly the codes 1, 2, 3, 5, 8 and is
  injective there, and the derived reverse table is its inverse: a code maps to a type
  name exactly when the reverse table maps that type name to the code. Hence going
  from a code to its type and back is the identity on the codes, and going from a
  type name of the image to its code and back is the identity on the image.
\<close>

theorem sample_format_tables_inverse:
  "dom DATA_SAMPLE_FORMAT_TO_SEG_Y_TYPE = {1, 2, 3, 5, 8}
   \<and> inj_on DATA_SAMPLE_FORMAT_TO_SEG_Y_TYPE {1, 2, 3, 5, 8}
   \<and> dom SEG_Y_TYPE_TO_DATA_SAMPLE_FORMAT = ran DATA_SAMPLE_FORMAT_TO_SEG_Y_TYPE
   \<and> ((DATA_SAMPLE_FORMAT_TO_SEG_Y_TYPE c = Some t) = (SEG_Y_TYPE_TO_DATA_SAMPLE_FORMAT t = Some c))"
proof -
  have d: "dom DATA_SAMPLE_FORMAT_TO_SEG_Y_TYPE = {1, 2, 3, 5, 8}"
    unfolding DATA_SAMPLE_FORMAT_TO_SEG_Y_TYPE_unfold by auto
  have i: "inj_on DATA_SAMPLE_FORMAT_TO_SEG_Y_TYPE {1, 2, 3, 5, 8}"
    unfolding DATA_SAMPLE_FORMAT_TO_SEG_Y_TYPE_unfold by (auto simp: inj_on_def)
  have inv: "(DATA_SAMPLE_FORMAT_TO_SEG_Y_TYPE c = Some t) = (SEG_Y_TYPE_TO_DATA_SAMPLE_FORMAT t = Some c)"
    for c t
    unfolding DATA_SAMPLE_FORMAT_TO_SEG_Y_TYPE_unfold SEG_Y_TYPE_TO_DATA_SAMPLE_FORMAT_unfold
    by (auto split: if_splits)
  have r: "dom SEG_Y_TYPE_TO_DATA_SAMPLE_FORMAT = ran DATA_SAMPLE_FORMAT_TO_SEG_Y_TYPE"
    using inv by (auto simp: dom_def ran_def)
  show ?thesis
    using d i r inv by simp
qed

theorem sample_format_tables_inverse_witness:
  "DATA_SAMPLE_FORMAT_TO_SEG_Y_TYPE 5 = Some ''float32''
   \<and> SEG_Y_TYPE_TO_DATA_SAMPLE_FORMAT ''float32'' = Some 5"
proof -
  have "DATA_SAMPLE_FORMAT_TO_SEG_Y_TYPE 5 = Some ''float32''"
    by (simp add: DATA_SAMPLE_FORMAT_TO_SEG_Y_TYPE_unfold)
  then show ?thesis
    using sample_format_tables_inverse [of 5 "''float32''"] by simp
qed

section \<open>Properties of Python ranges\<close>

lemma div_step_pos:
  fixes st l :: int
  assumes "0 < st" and "0 < l"
  shows "(st * l - 1) div st = l - 1"
proof (rule int_div_pos_eq [of _ _ _ "st - 1"])
  show "st * l - 1 = st * (l - 1) + (st - 1)"
    by (simp add: algebra_simps)
  show "0 \<le> st - 1" and "st - 1 < st"
    using assms by simp_all
qed

lemma len_range_canonical:
  assumes "st \<noteq> 0" and "0 \<le> l"
  shows "len_range \<lparr>start = s, stop = s + st * l, step = st\<rparr> = l"
proof (cases "l = 0")
  case True
  then show ?thesis by (simp add: len_range_def)
next
  case False
  with assms have l: "0 < l" by simp
  show ?thesis
  proof (cases "0 < st")
    case True
    then have "0 < st * l" using l by simp
    then show ?thesis
      using True div_step_pos [OF True l] by (simp add: len_range_def)
  next
    case False
    with assms have neg: "0 < - st" by simp
    then have "0 < (- st) * l" using l by (simp only: mult_pos_pos)
    then have "st * l < 0" by simp
    moreover have "(- (st * l) - 1) div (- st) = l - 1"
      using div_step_pos [OF neg l] by simp
    ultimately show ?thesis
      using neg by (simp add: len_range_def)
  qed
qed

lemma length_list_range: "length (list_range r) = nat (len_range r)"
  by (simp add: list_range_def)

lemma set_list_range_step1:
  "set (list_range \<lparr>start = a, stop = b, step = 1\<rparr>) = {a..<b}"
proof -
  have len: "len_range \<lparr>start = a, stop = b, step = 1\<rparr> = (if a < b then b - a else 0)"
    by (simp add: len_range_def)
  show ?thesis
  proof (intro set_eqI iffI)
    fix x assume "x \<in> set (list_range \<lparr>start = a, stop = b, step = 1\<rparr>)"
    then obtain i where "i < nat (len_range \<lparr>start = a, stop = b, step = 1\<rparr>)" "x = a + int i"
      by (auto simp: list_range_def)
    then show "x \<in> {a..<b}"
      unfolding len by (auto split: if_splits)
  next
    fix x assume x: "x \<in> {a..<b}"
    then have "nat (x - a) < nat (len_range \<lparr>start = a, stop = b, step = 1\<rparr>)"
      unfolding len by auto
    moreover have "x = a + int (nat (x - a))" using x by simp
    ultimately show "x \<in> set (list_range \<lparr>start = a, stop = b, step = 1\<rparr>)"
      unfolding list_range_def by (auto simp: image_iff intro!: bexI [of _ "nat (x - a)"])
  qed
qed

lemma int_div_mult_le:
  fixes a b :: int
  assumes "0 < b"
  shows "a div b * b \<le> a"
proof -
  have "a = a div b * b + a mod b"
    by simp
  moreover have "0 \<le> a mod b"
    using assms by simp
  ultimately show ?thesis
    by linarith
qed

lemma len_range_pos_step:
  assumes "0 < step r"
  shows "len_range r = (if start r < stop r then (stop r - start r - 1) div step r + 1 else 0)"
  using assms by (simp add: len_range_def)

lemma list_range_member_pos:
  assumes st: "0 < step r"
  shows "(k \<in> set (list_range r)) = in_range r k"
proof
  assume "k \<in> set (list_range r)"
  then obtain i where i: "i < nat (len_range r)" and k: "k = start r + int i * step r"
    by (auto simp: list_range_def)
  from i have pos: "0 < len_range r" by simp
  then have lt: "start r < stop r"
    using st by (simp add: len_range_pos_step split: if_splits)
  with st have len: "len_range r = (stop r - start r - 1) div step r + 1"
    by (simp add: len_range_pos_step)
  from i len have "int i \<le> (stop r - start r - 1) div step r"
    by simp
  then have "int i * step r \<le> (stop r - start r - 1) div step r * step r"
    using st by (simp add: mult_right_mono)
  also have "\<dots> \<le> stop r - start r - 1"
    using st by (rule int_div_mult_le)
  finally have "k < stop r"
    by (simp add: k)
  moreover have "start r \<le> k"
    using st by (simp add: k)
  moreover have "(k - start r) mod step r = 0"
    by (simp add: k)
  ultimately show "in_range r k"
    using st by (simp add: in_range_def)
next
  assume "in_range r k"
  with st have lo: "start r \<le> k" and hi: "k < stop r" and m: "(k - start r) mod step r = 0"
    by (simp_all add: in_range_def)
  define i where "i = (k - start r) div step r"
  have i0: "0 \<le> i"
    using lo st by (simp add: i_def pos_imp_zdiv_nonneg_iff)
  have k: "k = start r + i * step r"
    using m by (simp add: i_def mod_eq_0_iff_dvd)
  from lo hi have lt: "start r < stop r" by simp
  with st have len: "len_range r = (stop r - start r - 1) div step r + 1"
    by (simp add: len_range_pos_step)
  have "i \<le> (stop r - start r - 1) div step r"
    unfolding i_def using hi st by (intro zdiv_mono1) simp_all
  with len i0 have "nat i < nat (len_range r)"
    by simp
  moreover have "k = start r + int (nat i) * step r"
    using k i0 by simp
  ultimately show "k \<in> set (list_range r)"
    unfolding list_range_def by (auto simp: image_iff intro!: bexI [of _ "nat i"])
qed

lemma list_range_nth:
  "i < length (list_range r) \<Longrightarrow> list_range r ! i = start r + int i * step r"
  by (simp add: list_range_def)

lemma index_in_list_range:
  assumes "step r \<noteq> 0"
  shows "index_in_range r (start r + int i * step r) = i"
  using assms by (simp add: index_in_range_def)

lemma distinct_list_range:
  assumes "step r \<noteq> 0"
  shows "distinct (list_range r)"
  unfolding list_range_def using assms by (auto simp: distinct_map inj_on_def)

section \<open>Properties of the strategies\<close>

subsection \<open>ranges\<close>

lemma ranges_Inr_step:
  assumes "ranges a drawn = Inr r"
  shows "step r \<noteq> 0"
proof -
  obtain start' length' step' where d: "drawn = (start', length', step')"
    by (cases drawn)
  from assms show ?thesis
    by (auto simp: ranges_def Let_def d range3_def split: if_splits)
qed

lemma ranges_max_less_min:
  assumes "max_size a = Some mx" and "mx < (case min_size a of None \<Rightarrow> 0 | Some m \<Rightarrow> m)"
  shows "\<exists>msg. ranges a drawn = Inl (ValueError msg)"
  using assms by (simp add: ranges_def Let_def)

text \<open>
  C8: with no \<^verbatim>\<open>min_size\<close> the generator behaves as with \<^verbatim>\<open>min_size = 0\<close> (the same
  outcome for the same draws, and the same draws allowed); whenever \<^verbatim>\<open>max_size\<close> is
  given and is below the given or defaulted \<^verbatim>\<open>min_size\<close>, the outcome is a
  \<^verbatim>\<open>ValueError\<close>, whatever is drawn; and a range that is produced never has step zero.
\<close>

theorem ranges_size_checks:
  "ranges (a\<lparr>min_size := None\<rparr>) drawn = ranges (a\<lparr>min_size := Some 0\<rparr>) drawn
   \<and> ranges_draws (a\<lparr>min_size := None\<rparr>) drawn = ranges_draws (a\<lparr>min_size := Some 0\<rparr>) drawn
   \<and> (max_size a = Some mx \<and> mx < (case min_size a of None \<Rightarrow> 0 | Some m \<Rightarrow> m) \<longrightarrow>
        (\<exists>msg. ranges a drawn = Inl (ValueError msg)))
   \<and> (ranges a drawn = Inr r \<longrightarrow> step r \<noteq> 0)
   \<and> (ranges_produces a r \<longrightarrow> step r \<noteq> 0)"
proof (intro conjI impI)
  show "ranges (a\<lparr>min_size := None\<rparr>) drawn = ranges (a\<lparr>min_size := Some 0\<rparr>) drawn"
    by (simp add: ranges_def)
  show "ranges_draws (a\<lparr>min_size := None\<rparr>) drawn = ranges_draws (a\<lparr>min_size := Some 0\<rparr>) drawn"
    by (simp add: ranges_draws_def)
  show "\<exists>msg. ranges a drawn = Inl (ValueError msg)"
    if "max_size a = Some mx \<and> mx < (case min_size a of None \<Rightarrow> 0 | Some m \<Rightarrow> m)"
    using that ranges_max_less_min [of a mx drawn] by blast
  show "step r \<noteq> 0" if "ranges a drawn = Inr r"
    using that by (rule ranges_Inr_step)
  show "step r \<noteq> 0" if "ranges_produces a r"
    using that by (auto elim!: ranges_produces.cases dest: ranges_Inr_step)
qed

theorem ranges_size_checks_witness:
  "ranges (ranges_defaults\<lparr>max_size := Some (- 1)\<rparr>) (0, 0, 1)
     = Inl (ValueError ''Value of -1 as max_size for ranges() is less than min_size=0'')
   \<and> ranges (ranges_defaults\<lparr>max_size := Some 3\<rparr>) (5, 2, - 2)
     = Inr \<lparr>start = 5, stop = 1, step = - 2\<rparr>
   \<and> ranges_produces (ranges_defaults\<lparr>max_size := Some 3\<rparr>) \<lparr>start = 5, stop = 1, step = - 2\<rparr>
   \<and> step \<lparr>start = 5, stop = 1, step = - 2\<rparr> \<noteq> 0"
proof -
  have e: "ranges (ranges_defaults\<lparr>max_size := Some (- 1)\<rparr>) (0, 0, 1)
     = Inl (ValueError ''Value of -1 as max_size for ranges() is less than min_size=0'')"
    by code_simp
  have r: "ranges (ranges_defaults\<lparr>max_size := Some 3\<rparr>) (5, 2, - 2)
     = Inr \<lparr>start = 5, stop = 1, step = - 2\<rparr>"
    by (simp add: ranges_def ranges_defaults_def range3_def)
  have d: "ranges_draws (ranges_defaults\<lparr>max_size := Some 3\<rparr>) (5, 2, - 2)"
    by (simp add: ranges_draws_def ranges_defaults_def integers_def)
  have p: "ranges_produces (ranges_defaults\<lparr>max_size := Some 3\<rparr>) \<lparr>start = 5, stop = 1, step = - 2\<rparr>"
    using d r by (rule ranges_produces.intros)
  show ?thesis
    using e r p
      ranges_size_checks [of "ranges_defaults\<lparr>max_size := Some 3\<rparr>" "(5, 2, - 2)" 3
        "\<lparr>start = 5, stop = 1, step = - 2\<rparr>"]
    by simp
qed

subsection \<open>items2d\<close>

lemma ranges_produces_items2d:
  assumes "ranges_produces (ranges_defaults\<lparr>min_size := Some 1, max_size := mx, min_step_value := Some 1\<rparr>) r"
  shows "1 \<le> step r \<and> 1 \<le> len_range r"
proof -
  let ?a = "ranges_defaults\<lparr>min_size := Some 1, max_size := mx, min_step_value := Some 1\<rparr>"
  from assms obtain drawn where d: "ranges_draws ?a drawn" and r: "ranges ?a drawn = Inr r"
    by (auto elim: ranges_produces.cases)
  obtain s l st where drawn: "drawn = (s, l, st)"
    by (cases drawn)
  from d have l: "1 \<le> l" and st: "1 \<le> st"
    by (simp_all add: drawn ranges_draws_def ranges_defaults_def integers_def)
  from r st have "r = \<lparr>start = s, stop = s + st * l, step = st\<rparr>"
    by (auto simp: drawn ranges_def ranges_defaults_def range3_def Let_def split: if_splits option.splits)
  moreover have "len_range \<lparr>start = s, stop = s + st * l, step = st\<rparr> = l"
    using st l by (intro len_range_canonical) simp_all
  ultimately show ?thesis
    using st l by simp
qed

text \<open>
  C3, amended: every value produced by \<^verbatim>\<open>items2d\<close> holds two non-empty ranges
  \<^verbatim>\<open>i_range\<close> and \<^verbatim>\<open>j_range\<close>, each with a step of at least 1 (the step is drawn
  from the integers from 1 upwards, not fixed to 1), and a mapping to integers whose
  key set is exactly the Cartesian product of the elements of the two ranges.
\<close>

theorem items2d_grid:
  assumes "items2d i_size j_size it"
  shows "1 \<le> step (i_range it) \<and> 1 \<le> step (j_range it)
    \<and> list_range (i_range it) \<noteq> [] \<and> list_range (j_range it) \<noteq> []
    \<and> dom (items it) = set (list_range (i_range it)) \<times> set (list_range (j_range it))"
  using assms
proof (cases rule: items2d.cases)
  case (1 ir jr size' vals)
  from ranges_produces_items2d [OF 1(2)] have i: "1 \<le> step ir" "1 \<le> len_range ir"
    by simp_all
  from ranges_produces_items2d [OF 1(3)] have j: "1 \<le> step jr" "1 \<le> len_range jr"
    by simp_all
  have ne: "list_range ir \<noteq> []" "list_range jr \<noteq> []"
    using i j length_list_range [of ir] length_list_range [of jr] by auto
  from 1(4,5) have "int (length vals) = len_range ir * len_range jr"
    by (simp add: lists_of_def)
  then have "length vals = nat (len_range ir) * nat (len_range jr)"
    using i j by (simp add: nat_eq_iff2 flip: nat_mult_distrib)
  then have len: "length vals = length (List.product (list_range ir) (list_range jr))"
    by (simp add: length_list_range)
  have "dom (dict_of (zip (List.product (list_range ir) (list_range jr)) vals))
      = set (List.product (list_range ir) (list_range jr))"
    using len by (simp add: dom_dict_of map_fst_zip flip: set_map)
  then show ?thesis
    using i j ne by (simp add: 1(1))
qed


lemma items2d_example:
  "items2d (Some 2) (Some 2)
     \<lparr>i_range = \<lparr>start = 0, stop = 4, step = 2\<rparr>,
      j_range = \<lparr>start = 0, stop = 1, step = 1\<rparr>,
      items = dict_of [((0, 0), 7), ((2, 0), 8)]\<rparr>"
proof -
  let ?ir = "\<lparr>start = 0, stop = 4, step = 2\<rparr>"
  let ?jr = "\<lparr>start = 0, stop = 1, step = 1\<rparr>"
  have li: "len_range ?ir = 2" and lj: "len_range ?jr = 1"
    by (simp_all add: len_range_def)
  have ei: "list_range ?ir = [0, 2]" and ej: "list_range ?jr = [0]"
    by (simp_all add: list_range_def li lj upt_rec)
  have i: "ranges_produces (ranges_defaults\<lparr>min_size := Some 1, max_size := Some 2, min_step_value := Some 1\<rparr>) ?ir"
  proof (rule ranges_produces.intros [of _ "(0, 2, 2)"])
    show "ranges_draws (ranges_defaults\<lparr>min_size := Some 1, max_size := Some 2, min_step_value := Some 1\<rparr>) (0, 2, 2)"
      by (simp add: ranges_draws_def ranges_defaults_def integers_def)
    show "ranges (ranges_defaults\<lparr>min_size := Some 1, max_size := Some 2, min_step_value := Some 1\<rparr>) (0, 2, 2) = Inr ?ir"
      by (simp add: ranges_def ranges_defaults_def range3_def)
  qed
  have j: "ranges_produces (ranges_defaults\<lparr>min_size := Some 1, max_size := Some 2, min_step_value := Some 1\<rparr>) ?jr"
  proof (rule ranges_produces.intros [of _ "(0, 1, 1)"])
    show "ranges_draws (ranges_defaults\<lparr>min_size := Some 1, max_size := Some 2, min_step_value := Some 1\<rparr>) (0, 1, 1)"
      by (simp add: ranges_draws_def ranges_defaults_def integers_def)
    show "ranges (ranges_defaults\<lparr>min_size := Some 1, max_size := Some 2, min_step_value := Some 1\<rparr>) (0, 1, 1) = Inr ?jr"
      by (simp add: ranges_def ranges_defaults_def range3_def)
  qed
  have s: "(2::int) = len_range ?ir * len_range ?jr"
    by (simp add: li lj)
  have v: "lists_of (integers None None) 2 2 [7, 8]"
    by (simp add: lists_of_def integers_def)
  have "items2d (Some 2) (Some 2)
     \<lparr>i_range = ?ir, j_range = ?jr,
      items = dict_of (zip (List.product (list_range ?ir) (list_range ?jr)) [7, 8])\<rparr>"
    using i j s v by (rule items2d.intros)
  then show ?thesis
    by (simp add: ei ej)
qed

text \<open>
  C3, as stated: both ranges have step exactly 1. With the draws (0, 2, 2) for the
  first range and (0, 1, 1) for the second, \<^verbatim>\<open>items2d(2, 2)\<close> produces the first
  range \<^verbatim>\<open>range(0, 4, 2)\<close>, whose step is 2 and whose elements are 0 and 2.
\<close>

theorem items2d_step_counterexample:
  "items2d (Some 2) (Some 2)
     \<lparr>i_range = \<lparr>start = 0, stop = 4, step = 2\<rparr>,
      j_range = \<lparr>start = 0, stop = 1, step = 1\<rparr>,
      items = dict_of [((0, 0), 7), ((2, 0), 8)]\<rparr>
   \<and> step (i_range \<lparr>i_range = \<lparr>start = 0, stop = 4, step = 2\<rparr>,
      j_range = \<lparr>start = 0, stop = 1, step = 1\<rparr>,
      items = dict_of [((0, 0), 7), ((2, 0), 8)]\<rparr>) = 2
   \<and> list_range \<lparr>start = 0, stop = 4, step = 2\<rparr> = [0, 2]"
  using items2d_example by (simp add: list_range_def len_range_def upt_rec)

theorem items2d_grid_witness:
  "items2d (Some 2) (Some 2)
     \<lparr>i_range = \<lparr>start = 0, stop = 4, step = 2\<rparr>,
      j_range = \<lparr>start = 0, stop = 1, step = 1\<rparr>,
      items = dict_of [((0, 0), 7), ((2, 0), 8)]\<rparr>
   \<and> dom (dict_of [((0, 0), 7), ((2, 0), 8 :: int)]) = {(0 :: int, 0 :: int), (2, 0)}"
proof -
  have "list_range \<lparr>start = 0, stop = 4, step = 2\<rparr> = [0, 2]"
    and "list_range \<lparr>start = 0, stop = 1, step = 1\<rparr> = [0]"
    by (simp_all add: list_range_def len_range_def upt_rec)
  then show ?thesis
    using items2d_example items2d_grid [OF items2d_example] by auto
qed

subsection \<open>spaced_ranges\<close>

lemma sorted_accumulate_from:
  "\<forall>x \<in> set xs. 0 \<le> x \<Longrightarrow>
     sorted (accumulate_from tot xs) \<and> (\<forall>y \<in> set (accumulate_from tot xs). tot \<le> y)"
proof (induction xs arbitrary: tot)
  case Nil
  then show ?case by simp
next
  case (Cons x xs)
  then have ih: "sorted (accumulate_from (tot + x) xs)"
    "\<forall>y \<in> set (accumulate_from (tot + x) xs). tot + x \<le> y"
    and x: "0 \<le> x"
    by simp_all
  from ih(2) x have "\<forall>y \<in> set (accumulate_from (tot + x) xs). tot \<le> y"
    by force
  then show ?case
    using ih x by simp
qed

lemma length_accumulate_from: "length (accumulate_from tot xs) = length xs"
  by (induction xs arbitrary: tot) simp_all

lemma sorted_accumulate: "\<forall>x \<in> set xs. 0 \<le> x \<Longrightarrow> sorted (accumulate xs)"
  using sorted_accumulate_from [of "tl xs" "hd xs"] by (cases xs) (simp_all add: accumulate_def)

lemma length_accumulate: "length (accumulate xs) = length xs"
  by (cases xs) (simp_all add: accumulate_def length_accumulate_from)

lemma batches_Nil: "batches n [] = []"
  by (subst batches.simps) simp

lemma batches_two: "batches 2 (x # y # zs) = [x, y] # batches 2 zs"
  by (subst batches.simps) simp

lemma pad_batch_None: "pad_batch n None = (\<lambda>b. b)"
  by (rule ext) (simp add: pad_batch_def)

lemma batched_two: "batched xs 2 None = Inr (batches 2 xs)"
  by (simp add: batched_def pad_batch_None)

lemma ranges_of_sorted_pairs:
  assumes "even (length ys)" and "sorted ys"
  shows "\<exists>rs. map_result range_of_args (batches 2 ys) = Inr rs
    \<and> 2 * length rs = length ys
    \<and> sorted_wrt (\<lambda>r r'. stop r \<le> start r') rs
    \<and> (\<forall>r \<in> set rs. step r = 1 \<and> start r \<le> stop r \<and> start r \<in> set ys \<and> stop r \<in> set ys)"
  using assms
proof (induction ys rule: induct_list012)
  case 1
  then show ?case by (simp add: batches_Nil)
next
  case (2 x)
  then show ?case by simp
next
  case (3 x y zs)
  from "3.prems" have "even (length zs)" and "sorted zs"
    by simp_all
  with "3.IH"(1) obtain rs where rs: "map_result range_of_args (batches 2 zs) = Inr rs"
    and len: "2 * length rs = length zs"
    and sw: "sorted_wrt (\<lambda>r r'. stop r \<le> start r') rs"
    and each: "\<forall>r \<in> set rs. step r = 1 \<and> start r \<le> stop r \<and> start r \<in> set zs \<and> stop r \<in> set zs"
    by blast
  let ?r = "\<lparr>start = x, stop = y, step = 1\<rparr>"
  have m: "map_result range_of_args (batches 2 (x # y # zs)) = Inr (?r # rs)"
    unfolding batches_two by (simp add: rs range_of_args_def range3_def)
  from "3.prems" have xy: "x \<le> y" and after: "\<forall>z \<in> set zs. y \<le> z"
    by auto
  have "\<forall>r' \<in> set rs. stop ?r \<le> start r'"
    using each after by simp
  with sw have "sorted_wrt (\<lambda>r r'. stop r \<le> start r') (?r # rs)"
    by simp
  moreover have "\<forall>r \<in> set (?r # rs). step r = 1 \<and> start r \<le> stop r
      \<and> start r \<in> set (x # y # zs) \<and> stop r \<in> set (x # y # zs)"
    using each xy by simp
  moreover have "2 * length (?r # rs) = length (x # y # zs)"
    using len by simp
  ultimately show ?case
    using m by blast
qed

lemma list_range_step1_set:
  assumes "step r = 1"
  shows "set (list_range r) = {start r..<stop r}"
proof -
  have "r = \<lparr>start = start r, stop = stop r, step = 1\<rparr>"
    using assms by simp
  then show ?thesis
    using set_list_range_step1 [of "start r" "stop r"] by simp
qed

text \<open>
  C9: for a non-negative \<^verbatim>\<open>min_interval\<close>, every list produced by \<^verbatim>\<open>spaced_ranges\<close>
  has between \<^verbatim>\<open>min_num_ranges\<close> and \<^verbatim>\<open>max_num_ranges\<close> ranges; the ranges are
  in increasing order (each start is at least the stop of the range before it, and of
  every earlier range) and pairwise disjoint as sets of integers; each has step 1
  and a start no larger than its stop.
\<close>

theorem spaced_ranges_disjoint_increasing:
  assumes "0 \<le> min_interval"
    and "spaced_ranges min_num_ranges max_num_ranges min_interval max_interval rs"
  shows "min_num_ranges \<le> int (length rs) \<and> int (length rs) \<le> max_num_ranges
    \<and> (\<forall>i. Suc i < length rs \<longrightarrow> stop (rs ! i) \<le> start (rs ! Suc i))
    \<and> (\<forall>i j. i < j \<and> j < length rs \<longrightarrow>
          set (list_range (rs ! i)) \<inter> set (list_range (rs ! j)) = {})
    \<and> (\<forall>r \<in> set rs. step r = 1 \<and> start r \<le> stop r)"
  using assms(2)
proof (cases rule: spaced_ranges.cases)
  case (1 n lst pairs)
  from 1(2) have len: "int (length lst) = 2 * n"
    and elems: "\<forall>x \<in> set lst. min_interval \<le> x"
    by (auto simp: lists_of_def integers_def list_all_iff)
  from elems assms(1) have "\<forall>x \<in> set lst. 0 \<le> x"
    by auto
  then have srt: "sorted (accumulate lst)"
    by (rule sorted_accumulate)
  from len have "even (int (length lst))"
    by simp
  then have ev: "even (length (accumulate lst))"
    by (simp add: length_accumulate)
  from 1(3) have pairs: "pairs = batches 2 (accumulate lst)"
    by (simp add: batched_two)
  from ranges_of_sorted_pairs [OF ev srt] 1(4) pairs
  have l2: "2 * length rs = length lst"
    and sw: "sorted_wrt (\<lambda>r r'. stop r \<le> start r') rs"
    and each: "\<forall>r \<in> set rs. step r = 1 \<and> start r \<le> stop r"
    by (auto simp: length_accumulate)
  from l2 len have n: "int (length rs) = n"
    by linarith
  have count: "min_num_ranges \<le> int (length rs) \<and> int (length rs) \<le> max_num_ranges"
    using 1(1) n by (simp add: integers_def)
  have ord: "stop (rs ! i) \<le> start (rs ! j)" if "i < j" "j < length rs" for i j
    using sw that by (simp add: sorted_wrt_iff_nth_less)
  have disj: "set (list_range (rs ! i)) \<inter> set (list_range (rs ! j)) = {}"
    if "i < j" "j < length rs" for i j
  proof -
    from that each have "step (rs ! i) = 1" and "step (rs ! j) = 1"
      by simp_all
    then show ?thesis
      using ord [OF that] by (auto simp: list_range_step1_set)
  qed
  show ?thesis
    using count ord disj each by simp
qed


lemma spaced_ranges_example:
  "spaced_ranges 1 2 0 10 [\<lparr>start = 1, stop = 3, step = 1\<rparr>, \<lparr>start = 6, stop = 6, step = 1\<rparr>]"
proof (rule spaced_ranges.intros [of _ _ 2 _ _ "[1, 2, 3, 0]" "[[1, 3], [6, 6]]"])
  show "integers (Some 1) (Some 2) 2"
    by (simp add: integers_def)
  show "lists_of (integers (Some 0) (Some 10)) (2 * 2) (2 * 2) [1, 2, 3, 0]"
    by (simp add: lists_of_def integers_def)
  have "batches 2 [1, 3, 6, 6 :: int] = [[1, 3], [6, 6]]"
    by (simp add: batches_two batches_Nil)
  then show "batched (accumulate [1, 2, 3, 0]) 2 None = Inr [[1, 3], [6, 6]]"
    by (simp add: batched_two accumulate_def)
  show "map_result range_of_args [[1, 3], [6, 6]]
      = Inr [\<lparr>start = 1, stop = 3, step = 1\<rparr>, \<lparr>start = 6, stop = 6, step = 1\<rparr>]"
    by (simp add: range_of_args_def range3_def)
qed

theorem spaced_ranges_disjoint_increasing_witness:
  "spaced_ranges 1 2 0 10 [\<lparr>start = 1, stop = 3, step = 1\<rparr>, \<lparr>start = 6, stop = 6, step = 1\<rparr>]
   \<and> (1 :: int) \<le> 2 \<and> (2 :: int) \<le> 2
   \<and> stop \<lparr>start = 1, stop = 3, step = 1\<rparr> \<le> start \<lparr>start = 6, stop = 6, step = 1\<rparr>
   \<and> set (list_range \<lparr>start = 1, stop = 3, step = 1\<rparr>)
       \<inter> set (list_range \<lparr>start = 6, stop = 6, step = 1\<rparr>) = {}"
proof -
  have z: "(0 :: int) \<le> 0" by simp
  from spaced_ranges_disjoint_increasing [OF z spaced_ranges_example]
  have "\<forall>i j. i < j \<and> j < length [\<lparr>start = 1, stop = 3, step = 1\<rparr>, \<lparr>start = 6, stop = 6, step = 1\<rparr>] \<longrightarrow>
      set (list_range ([\<lparr>start = 1, stop = 3, step = 1\<rparr>, \<lparr>start = 6, stop = 6, step = 1\<rparr>] ! i))
      \<inter> set (list_range ([\<lparr>start = 1, stop = 3, step = 1\<rparr>, \<lparr>start = 6, stop = 6, step = 1\<rparr>] ! j)) = {}"
    by blast
  from this [rule_format, of 0 1]
  have "set (list_range \<lparr>start = 1, stop = 3, step = 1\<rparr>)
       \<inter> set (list_range \<lparr>start = 6, stop = 6, step = 1\<rparr>) = {}"
    by simp
  then show ?thesis
    using spaced_ranges_example by simp
qed

subsection \<open>multiline_ascii_encodable_text\<close>

lemma decode_line_nul:
  assumes "decode_line x = Inr l"
  shows "l = replicate (nat x) (CHR 0x00)"
  using assms by (auto simp: decode_line_def bytes_def decode_ascii_def split: if_splits)

lemma decode_line_ok: "0 \<le> x \<Longrightarrow> decode_line x = Inr (replicate (nat x) (CHR 0x00))"
  by (simp add: decode_line_def bytes_def decode_ascii_def list_all_iff)

lemma map_result_decode_line:
  "map_result decode_line xs = Inr ls \<Longrightarrow> \<forall>l \<in> set ls. set l \<subseteq> {CHR 0x00}"
proof (induction xs arbitrary: ls)
  case Nil
  then show ?case by simp
next
  case (Cons x xs)
  from Cons.prems obtain l ls' where l: "decode_line x = Inr l"
    and ls': "map_result decode_line xs = Inr ls'" and ls: "ls = l # ls'"
    by (auto split: sum.splits)
  from decode_line_nul [OF l] have "set l \<subseteq> {CHR 0x00}"
    by auto
  with Cons.IH [OF ls'] show ?case
    by (simp add: ls)
qed

lemma set_join: "set (join sep ls) \<subseteq> set sep \<union> \<Union> (set ` set ls)"
  by (induction sep ls rule: join.induct) auto

lemma multiline_text_only_nul_and_newline:
  assumes "multiline_ascii_encodable_text min_num_lines max_num_lines s"
  shows "set s \<subseteq> {CHR 0x00, CHR 0x0A}"
  using assms
proof (cases rule: multiline_ascii_encodable_text.cases)
  case (1 n xs)
  from 1(3) obtain ls where ls: "map_result decode_line xs = Inr ls"
    and s: "s = join [CHR 0x0A] ls"
    by (auto simp: join_lines_def split: sum.splits)
  from map_result_decode_line [OF ls] set_join [of "[CHR 0x0A]" ls]
  show ?thesis
    unfolding s by auto
qed

text \<open>
  C2: the claim is that every character of every line produced by
  \<^verbatim>\<open>multiline_ascii_encodable_text\<close> has a code point from 32 to 126. Each drawn
  integer \<open>x\<close> becomes the line \<^verbatim>\<open>bytes(x).decode('ascii')\<close>, which is \<open>x\<close> characters
  of code point 0: with one line and the drawn integer 32, the text produced is 32
  characters of code point 0. By the lemma above no produced text holds any
  character other than code point 0 and the newline.
\<close>

theorem multiline_text_nul_line:
  "join_lines [32] = Inr (replicate 32 (CHR 0x00))
   \<and> multiline_ascii_encodable_text 1 1 (replicate 32 (CHR 0x00))
   \<and> (of_char (CHR 0x00) :: nat) = 0"
proof -
  have j: "join_lines [32] = Inr (replicate 32 (CHR 0x00))"
    by (simp add: join_lines_def decode_line_ok)
  have "multiline_ascii_encodable_text 1 1 (replicate 32 (CHR 0x00))"
  proof (rule multiline_ascii_encodable_text.intros [of _ _ 1 "[32]"])
    show "integers (Some 1) (Some 1) 1"
      by (simp add: integers_def)
    show "lists_of (integers (Some (fst PRINTABLE_ASCII_RANGE)) (Some (snd PRINTABLE_ASCII_RANGE))) 1 1 [32]"
      by (simp add: lists_of_def integers_def PRINTABLE_ASCII_RANGE_def)
    show "join_lines [32] = Inr (replicate 32 (CHR 0x00))"
      by (rule j)
  qed
  with j show ?thesis
    by simp
qed

subsection \<open>fixed_dict_of_printable_strings\<close>

lemma PRINTABLE_ASCII_ALPHABET_codes:
  assumes "c \<in> set PRINTABLE_ASCII_ALPHABET"
  shows "32 \<le> (of_char c :: nat) \<and> (of_char c :: nat) \<le> 126"
proof -
  from assms obtain i where i: "i \<in> set (list_range \<lparr>start = 32, stop = 127, step = 1\<rparr>)"
    and c: "c = char_of (nat i)"
    by (auto simp: PRINTABLE_ASCII_ALPHABET_def PRINTABLE_ASCII_RANGE_def)
  from i have "32 \<le> i" and "i < 127"
    by (simp_all add: set_list_range_step1)
  then have "32 \<le> nat i" and "nat i \<le> 126"
    by simp_all
  moreover from this have "(of_char c :: nat) = nat i"
    by (simp add: c)
  ultimately show ?thesis by simp
qed

lemma fixed_dict_strategies_eq:
  "fixed_dict_strategies keys overrides k =
     (case dict_of overrides k of
        Some v \<Rightarrow> Some (Just v)
      | None \<Rightarrow> if k \<in> set keys then Some (Text PRINTABLE_ASCII_ALPHABET) else None)"
proof -
  let ?A = "map (\<lambda>key. (key, Text PRINTABLE_ASCII_ALPHABET :: 'a strategy)) keys"
  have b: "map_of (rev (map (\<lambda>(keyword, v). (keyword, Just v)) overrides)) k
      = map_option Just (dict_of overrides k)"
    by (simp add: dict_of_map_of rev_map map_of_map)
  have a: "dict_of ?A k = (if k \<in> set keys then Some (Text PRINTABLE_ASCII_ALPHABET) else None)"
  proof (cases "k \<in> set keys")
    case True
    then have "k \<in> dom (dict_of ?A)"
      by (simp add: dom_dict_of image_image)
    then obtain s where s: "dict_of ?A k = Some s"
      by blast
    from dict_of_SomeD [OF this] have "s = Text PRINTABLE_ASCII_ALPHABET"
      by auto
    with s True show ?thesis by simp
  next
    case False
    then have "k \<notin> dom (dict_of ?A)"
      by (simp add: dom_dict_of image_image)
    with False show ?thesis
      by (simp add: domIff)
  qed
  show ?thesis
    unfolding fixed_dict_strategies_def dict_update_all_map_of
    by (simp add: map_add_def b a split: option.splits)
qed


lemma dom_dict_of_overrides: "(dict_of overrides k = None) = (k \<notin> fst ` set overrides)"
  using dom_dict_of [of overrides] by (auto simp: domIff)

lemma fixed_dict_produces_some:
  fixes overrides :: "(string \<times> 'a pyobj) list"
  shows "\<exists>m. fixed_dict_of_printable_strings keys overrides m"
proof -
  define pick :: "'a strategy \<Rightarrow> 'a pyobj"
    where "pick s = (case s of Just v \<Rightarrow> v | _ \<Rightarrow> PyStr [])" for s
  define m where "m k = map_option pick (fixed_dict_strategies keys overrides k)" for k
  have "rel_option draws (fixed_dict_strategies keys overrides k) (m k)" for k
    by (simp add: m_def pick_def fixed_dict_strategies_eq split: option.splits)
  then have "fixed_dictionaries (fixed_dict_strategies keys overrides) m"
    unfolding fixed_dictionaries_def by blast
  then show ?thesis
    unfolding fixed_dict_of_printable_strings_def by (rule exI [of _ m])
qed

text \<open>
  C10: \<^verbatim>\<open>fixed_dict_of_printable_strings\<close> never fails and always produces some
  dictionary; the key set of every dictionary it produces is exactly the union of
  the key list and the names of the overrides; every override, also one whose name
  is not in the key list, is bound to its fixed value; and every key of the list
  that is not overridden is bound to a string whose characters all have code points
  from 32 to 126.
\<close>

theorem fixed_dict_keys_and_values:
  "(\<exists>m'. fixed_dict_of_printable_strings keys overrides m')
   \<and> (fixed_dict_of_printable_strings keys overrides m \<longrightarrow>
        dom m = set keys \<union> fst ` set overrides
        \<and> (\<forall>k v. dict_of overrides k = Some v \<longrightarrow> m k = Some v)
        \<and> (\<forall>k \<in> set keys - fst ` set overrides.
              \<exists>s. m k = Some (PyStr s)
                \<and> (\<forall>c \<in> set s. 32 \<le> (of_char c :: nat) \<and> (of_char c :: nat) \<le> 126)))"
proof (intro conjI impI)
  show "\<exists>m'. fixed_dict_of_printable_strings keys overrides m'"
    by (rule fixed_dict_produces_some)
next
  assume "fixed_dict_of_printable_strings keys overrides m"
  then have rel: "rel_option draws (fixed_dict_strategies keys overrides k) (m k)" for k
    by (simp add: fixed_dict_of_printable_strings_def fixed_dictionaries_def)
  have d: "(m k = None) = (fixed_dict_strategies keys overrides k = None)" for k
    using rel [of k] by (cases "m k"; cases "fixed_dict_strategies keys overrides k") simp_all
  have "(m k = None) = (k \<notin> set keys \<union> fst ` set overrides)" for k
    unfolding d fixed_dict_strategies_eq
    using dom_dict_of_overrides [of overrides k] by (auto split: option.splits)
  then have "(k \<in> dom m) = (k \<in> set keys \<union> fst ` set overrides)" for k
    by (simp only: domIff) simp
  then show "dom m = set keys \<union> fst ` set overrides"
    by blast
  show "\<forall>k v. dict_of overrides k = Some v \<longrightarrow> m k = Some v"
  proof (intro allI impI)
    fix k v assume "dict_of overrides k = Some v"
    then have "fixed_dict_strategies keys overrides k = Some (Just v)"
      by (simp add: fixed_dict_strategies_eq)
    with rel [of k] show "m k = Some v"
      by (cases "m k") simp_all
  qed
  show "\<forall>k \<in> set keys - fst ` set overrides.
      \<exists>s. m k = Some (PyStr s) \<and> (\<forall>c \<in> set s. 32 \<le> (of_char c :: nat) \<and> (of_char c :: nat) \<le> 126)"
  proof
    fix k assume k: "k \<in> set keys - fst ` set overrides"
    then have "dict_of overrides k = None"
      by (simp add: dom_dict_of_overrides)
    with k have "fixed_dict_strategies keys overrides k = Some (Text PRINTABLE_ASCII_ALPHABET)"
      by (simp add: fixed_dict_strategies_eq)
    with rel [of k] obtain x where x: "m k = Some x" and dr: "draws (Text PRINTABLE_ASCII_ALPHABET) x"
      by (cases "m k") simp_all
    from dr obtain s where s: "x = PyStr s" and "\<forall>c \<in> set s. c \<in> set PRINTABLE_ASCII_ALPHABET"
      by (cases x) (simp_all add: list_all_iff)
    then have "\<forall>c \<in> set s. 32 \<le> (of_char c :: nat) \<and> (of_char c :: nat) \<le> 126"
      using PRINTABLE_ASCII_ALPHABET_codes by blast
    with x s show "\<exists>s. m k = Some (PyStr s)
        \<and> (\<forall>c \<in> set s. 32 \<le> (of_char c :: nat) \<and> (of_char c :: nat) \<le> 126)"
      by simp
  qed
qed


lemma PRINTABLE_ASCII_ALPHABET_member:
  assumes "32 \<le> (of_char c :: nat)" and "(of_char c :: nat) \<le> 126"
  shows "c \<in> set PRINTABLE_ASCII_ALPHABET"
proof -
  let ?i = "int (of_char c)"
  have "?i \<in> set (list_range \<lparr>start = 32, stop = 127, step = 1\<rparr>)"
    using assms by (simp add: set_list_range_step1)
  moreover have "c = char_of (nat ?i)"
    by simp
  ultimately show ?thesis
    unfolding PRINTABLE_ASCII_ALPHABET_def PRINTABLE_ASCII_RANGE_def
    by (simp only: set_map fst_conv snd_conv) (rule image_eqI)
qed

lemma fixed_dict_example:
  "fixed_dict_of_printable_strings [''k''] [(''z'', PyInt 4 :: unit pyobj)]
     [''k'' \<mapsto> PyStr ''ab'', ''z'' \<mapsto> PyInt 4]"
proof -
  have ab: "list_all (\<lambda>c. c \<in> set PRINTABLE_ASCII_ALPHABET) ''ab''"
    by (simp add: PRINTABLE_ASCII_ALPHABET_member)
  have z: "dict_of [(''z'', PyInt 4 :: unit pyobj)] k = (if k = ''z'' then Some (PyInt 4) else None)" for k
    by (simp add: dict_of_def)
  have "rel_option draws (fixed_dict_strategies [''k''] [(''z'', PyInt 4 :: unit pyobj)] k)
      ([''k'' \<mapsto> PyStr ''ab'', ''z'' \<mapsto> PyInt 4] k)" for k
    unfolding fixed_dict_strategies_eq z using ab by simp
  then show ?thesis
    unfolding fixed_dict_of_printable_strings_def fixed_dictionaries_def by blast
qed

theorem fixed_dict_keys_and_values_witness:
  "fixed_dict_of_printable_strings [''k''] [(''z'', PyInt 4 :: unit pyobj)]
     [''k'' \<mapsto> PyStr ''ab'', ''z'' \<mapsto> PyInt 4]
   \<and> dom [''k'' \<mapsto> PyStr ''ab'', ''z'' \<mapsto> PyInt 4 :: unit pyobj] = {''k'', ''z''}"
  using fixed_dict_example
    fixed_dict_keys_and_values [of "[''k'']" "[(''z'', PyInt 4 :: unit pyobj)]"
      "[''k'' \<mapsto> PyStr ''ab'', ''z'' \<mapsto> PyInt 4]"]
  by auto

subsection \<open>header\<close>

lemma map_of_kwargs_pop: "f \<noteq> g \<Longrightarrow> map_of (kwargs_pop g kwargs) f = map_of kwargs f"
  by (induction kwargs) (auto simp: kwargs_pop_def)

lemma field_strategy_pop: "f \<noteq> g \<Longrightarrow> field_strategy hc (kwargs_pop g kwargs) f = field_strategy hc kwargs f"
  by (simp add: field_strategy_def map_of_kwargs_pop)

lemma header_loop_step:
  "header_loop hc (g # rest) kwargs fs =
     header_loop hc rest (kwargs_pop g kwargs) (fs(g \<mapsto> field_strategy hc kwargs g))"
proof (cases "map_of kwargs g")
  case None
  then have "g \<notin> fst ` set kwargs"
    by (simp add: map_of_eq_None_iff)
  then have "kwargs_pop g kwargs = kwargs"
    by (force simp: kwargs_pop_def filter_id_conv)
  with None show ?thesis
    by (simp add: field_strategy_def)
next
  case (Some v)
  then show ?thesis
    by (simp add: field_strategy_def)
qed

lemma header_loop_kwargs:
  "fst (header_loop hc names kwargs fs) = filter (\<lambda>(k, v). k \<notin> set names) kwargs"
proof (induction names arbitrary: kwargs fs)
  case Nil
  show ?case by simp
next
  case (Cons g rest)
  have "fst (header_loop hc (g # rest) kwargs fs)
      = fst (header_loop hc rest (kwargs_pop g kwargs) (fs(g \<mapsto> field_strategy hc kwargs g)))"
    by (simp only: header_loop_step)
  also have "\<dots> = filter (\<lambda>(k, v). k \<notin> set rest) (kwargs_pop g kwargs)"
    by (rule Cons.IH)
  also have "\<dots> = filter (\<lambda>(k, v). k \<notin> set (g # rest)) kwargs"
    by (auto simp: kwargs_pop_def intro: filter_cong)
  finally show ?case .
qed

lemma header_loop_strategies:
  assumes "distinct names"
  shows "snd (header_loop hc names kwargs fs) f =
     (if f \<in> set names then Some (field_strategy hc kwargs f) else fs f)"
  using assms
proof (induction names arbitrary: kwargs fs)
  case Nil
  show ?case by simp
next
  case (Cons g rest)
  then have d: "distinct rest" and g: "g \<notin> set rest"
    by simp_all
  have "snd (header_loop hc (g # rest) kwargs fs) f
      = snd (header_loop hc rest (kwargs_pop g kwargs) (fs(g \<mapsto> field_strategy hc kwargs g))) f"
    by (simp only: header_loop_step)
  also have "\<dots> = (if f \<in> set rest then Some (field_strategy hc (kwargs_pop g kwargs) f)
      else (fs(g \<mapsto> field_strategy hc kwargs g)) f)"
    by (rule Cons.IH [OF d])
  also have "\<dots> = (if f \<in> set (g # rest) then Some (field_strategy hc kwargs f) else fs f)"
  proof (cases "f \<in> set rest")
    case True
    with g have "f \<noteq> g" by blast
    with True show ?thesis
      by (simp add: field_strategy_pop)
  next
    case False
    then show ?thesis by simp
  qed
  finally show ?case .
qed


lemma header_field_strategies_error:
  shows "(\<exists>msg. header_field_strategies hc kwargs = Inl (TypeError msg))
     = (\<exists>k \<in> fst ` set kwargs. k \<notin> set (ordered_field_names hc))"
  and "isl (header_field_strategies hc kwargs)
     = (\<exists>k \<in> fst ` set kwargs. k \<notin> set (ordered_field_names hc))"
proof -
  obtain kw fs where l: "header_loop hc (ordered_field_names hc) kwargs Map.empty = (kw, fs)"
    by (cases "header_loop hc (ordered_field_names hc) kwargs Map.empty")
  then have kw: "kw = filter (\<lambda>(k, v). k \<notin> set (ordered_field_names hc)) kwargs"
    using header_loop_kwargs [of hc "ordered_field_names hc" kwargs Map.empty] by simp
  have ne: "(kw \<noteq> []) = (\<exists>k \<in> fst ` set kwargs. k \<notin> set (ordered_field_names hc))"
    unfolding kw by (force simp: filter_empty_conv)
  show "(\<exists>msg. header_field_strategies hc kwargs = Inl (TypeError msg))
     = (\<exists>k \<in> fst ` set kwargs. k \<notin> set (ordered_field_names hc))"
    unfolding ne [symmetric] by (simp add: header_field_strategies_def l)
  show "isl (header_field_strategies hc kwargs)
     = (\<exists>k \<in> fst ` set kwargs. k \<notin> set (ordered_field_names hc))"
    unfolding ne [symmetric] by (simp add: header_field_strategies_def l)
qed

lemma header_field_strategies_ok:
  assumes "distinct (ordered_field_names hc)"
    and "fst ` set kwargs \<subseteq> set (ordered_field_names hc)"
  shows "header_field_strategies hc kwargs
    = Inr (\<lambda>f. if f \<in> set (ordered_field_names hc) then Some (field_strategy hc kwargs f) else None)"
proof -
  obtain kw fs where l: "header_loop hc (ordered_field_names hc) kwargs Map.empty = (kw, fs)"
    by (cases "header_loop hc (ordered_field_names hc) kwargs Map.empty")
  then have "kw = filter (\<lambda>(k, v). k \<notin> set (ordered_field_names hc)) kwargs"
    using header_loop_kwargs [of hc "ordered_field_names hc" kwargs Map.empty] by simp
  with assms(2) have kw: "kw = []"
    by (force simp: filter_empty_conv)
  have "fs f = (if f \<in> set (ordered_field_names hc) then Some (field_strategy hc kwargs f) else None)" for f
    using header_loop_strategies [OF assms(1), of hc kwargs Map.empty f] l by simp
  then have "fs = (\<lambda>f. if f \<in> set (ordered_field_names hc) then Some (field_strategy hc kwargs f) else None)"
    by (rule ext)
  then show ?thesis
    by (simp add: header_field_strategies_def l kw)
qed

lemma field_strategy_Just: "(field_strategy hc kwargs f = Just v) = (map_of kwargs f = Some v)"
  by (simp add: field_strategy_def split: option.splits value_type.splits)

text \<open>
  C7, as stated: whenever all supplied names are declared fields, \<^verbatim>\<open>header\<close> fixes
  those fields to the supplied values. For a class whose ordered field names are
  \<^verbatim>\<open>a, a\<close> (bounds 0 and 9) and the keyword argument \<^verbatim>\<open>a=5\<close>, the first pass of the
  loop stores \<^verbatim>\<open>just(5)\<close> and removes the argument, and the second pass replaces it
  by \<^verbatim>\<open>integers(0, 9)\<close>: no error is raised, the field is not fixed, and a header
  with the value 3 in the field is produced.
\<close>

theorem header_duplicate_field_counterexample:
  "''a'' \<in> set (ordered_field_names
       \<lparr>class_name = ''Dup'', ordered_field_names = [''a'', ''a''],
        field_value_type = (\<lambda>f. Bounded 0 9)\<rparr>)
   \<and> map_of [(''a'', PyInt 5 :: unit pyobj)] ''a'' = Some (PyInt 5)
   \<and> \<not> isl (header_field_strategies
       \<lparr>class_name = ''Dup'', ordered_field_names = [''a'', ''a''],
        field_value_type = (\<lambda>f. Bounded 0 9)\<rparr> [(''a'', PyInt 5 :: unit pyobj)])
   \<and> projr (header_field_strategies
       \<lparr>class_name = ''Dup'', ordered_field_names = [''a'', ''a''],
        field_value_type = (\<lambda>f. Bounded 0 9)\<rparr> [(''a'', PyInt 5 :: unit pyobj)]) ''a''
       = Some (Integers 0 9)
   \<and> \<not> isl (header
       \<lparr>class_name = ''Dup'', ordered_field_names = [''a'', ''a''],
        field_value_type = (\<lambda>f. Bounded 0 9)\<rparr> [(''a'', PyInt 5 :: unit pyobj)])
   \<and> projr (header
       \<lparr>class_name = ''Dup'', ordered_field_names = [''a'', ''a''],
        field_value_type = (\<lambda>f. Bounded 0 9)\<rparr> [(''a'', PyInt 5 :: unit pyobj)])
       [''a'' \<mapsto> PyInt 3]"
proof -
  let ?hc = "\<lparr>class_name = ''Dup'', ordered_field_names = [''a'', ''a''],
        field_value_type = (\<lambda>f. Bounded 0 9)\<rparr>"
  have fs: "header_field_strategies ?hc [(''a'', PyInt 5 :: unit pyobj)]
      = Inr [''a'' \<mapsto> Integers 0 9]"
    by (simp add: header_field_strategies_def kwargs_pop_def)
  have "rel_option draws ([''a'' \<mapsto> Integers 0 9 :: unit strategy] k) ([''a'' \<mapsto> PyInt 3] k)" for k
    by (simp add: integers_def)
  then have "fixed_dictionaries [''a'' \<mapsto> Integers 0 9 :: unit strategy] [''a'' \<mapsto> PyInt 3]"
    unfolding fixed_dictionaries_def by (rule allI)
  then show ?thesis
    by (simp add: fs header_def)
qed

text \<open>
  C7, amended: \<^verbatim>\<open>header\<close> raises a \<^verbatim>\<open>TypeError\<close> exactly when some keyword argument
  names a field that is not among the ordered field names of the header class, and
  it raises nothing else. When every supplied name is a declared field and the
  ordered field names hold no name twice, it succeeds: the strategy holds exactly the
  declared fields, a field is held by \<^verbatim>\<open>just(v)\<close> exactly when the keyword
  arguments supply \<open>v\<close> for it, and every header produced has the supplied values
  in those fields.
\<close>

theorem header_type_error_iff:
  "((\<exists>msg. header hc kwargs = Inl (TypeError msg))
      = (\<exists>k \<in> fst ` set kwargs. k \<notin> set (ordered_field_names hc)))
   \<and> (isl (header hc kwargs) = (\<exists>k \<in> fst ` set kwargs. k \<notin> set (ordered_field_names hc)))
   \<and> (distinct (ordered_field_names hc) \<and> fst ` set kwargs \<subseteq> set (ordered_field_names hc) \<longrightarrow>
        (\<exists>fs. header_field_strategies hc kwargs = Inr fs
           \<and> header hc kwargs = Inr (fixed_dictionaries fs)
           \<and> dom fs = set (ordered_field_names hc)
           \<and> (\<forall>f \<in> set (ordered_field_names hc). fs f = Some (field_strategy hc kwargs f))
           \<and> (\<forall>f \<in> set (ordered_field_names hc). \<forall>v.
                 (fs f = Some (Just v)) = (map_of kwargs f = Some v))
           \<and> (\<forall>h. fixed_dictionaries fs h \<longrightarrow>
                 (\<forall>f v. map_of kwargs f = Some v \<longrightarrow> h f = Some v))))"
proof (intro conjI impI)
  have h: "header hc kwargs = Inl e \<longleftrightarrow> header_field_strategies hc kwargs = Inl e" for e
    by (simp add: header_def split: sum.splits)
  show "(\<exists>msg. header hc kwargs = Inl (TypeError msg))
      = (\<exists>k \<in> fst ` set kwargs. k \<notin> set (ordered_field_names hc))"
    unfolding h by (rule header_field_strategies_error(1))
  have "isl (header hc kwargs) = isl (header_field_strategies hc kwargs)"
    by (simp add: header_def split: sum.splits)
  then show "isl (header hc kwargs) = (\<exists>k \<in> fst ` set kwargs. k \<notin> set (ordered_field_names hc))"
    by (simp only: header_field_strategies_error(2))
next
  assume a: "distinct (ordered_field_names hc) \<and> fst ` set kwargs \<subseteq> set (ordered_field_names hc)"
  define fs where "fs f = (if f \<in> set (ordered_field_names hc)
      then Some (field_strategy hc kwargs f) else None)" for f
  have fs_eq: "fs = (\<lambda>f. if f \<in> set (ordered_field_names hc) then Some (field_strategy hc kwargs f) else None)"
    by (rule ext) (simp add: fs_def)
  from a have ok: "header_field_strategies hc kwargs = Inr fs"
    unfolding fs_eq by (intro header_field_strategies_ok) simp_all
  then have hd: "header hc kwargs = Inr (fixed_dictionaries fs)"
    by (simp add: header_def)
  have dm: "dom fs = set (ordered_field_names hc)"
    by (auto simp: fs_def dom_def)
  have each: "\<forall>f \<in> set (ordered_field_names hc). fs f = Some (field_strategy hc kwargs f)"
    by (simp add: fs_def)
  have just: "\<forall>f \<in> set (ordered_field_names hc). \<forall>v.
      (fs f = Some (Just v)) = (map_of kwargs f = Some v)"
    by (simp add: fs_def field_strategy_Just)
  have fixed: "\<forall>h. fixed_dictionaries fs h \<longrightarrow> (\<forall>f v. map_of kwargs f = Some v \<longrightarrow> h f = Some v)"
  proof (intro allI impI)
    fix h f v
    assume fd: "fixed_dictionaries fs h" and m: "map_of kwargs f = Some v"
    from m have "f \<in> fst ` set kwargs"
      by (metis domI dom_map_of_conv_image_fst)
    with a have "f \<in> set (ordered_field_names hc)"
      by blast
    with m have "fs f = Some (Just v)"
      by (simp add: fs_def field_strategy_def)
    moreover from fd have "rel_option draws (fs f) (h f)"
      by (simp add: fixed_dictionaries_def)
    ultimately show "h f = Some v"
      by (cases "h f") simp_all
  qed
  show "\<exists>fs. header_field_strategies hc kwargs = Inr fs
           \<and> header hc kwargs = Inr (fixed_dictionaries fs)
           \<and> dom fs = set (ordered_field_names hc)
           \<and> (\<forall>f \<in> set (ordered_field_names hc). fs f = Some (field_strategy hc kwargs f))
           \<and> (\<forall>f \<in> set (ordered_field_names hc). \<forall>v.
                 (fs f = Some (Just v)) = (map_of kwargs f = Some v))
           \<and> (\<forall>h. fixed_dictionaries fs h \<longrightarrow>
                 (\<forall>f v. map_of kwargs f = Some v \<longrightarrow> h f = Some v))"
    using ok hd dm each just fixed by (intro exI [of _ fs] conjI)
qed


theorem header_type_error_iff_witness:
  "(\<exists>msg. header \<lparr>class_name = ''H'', ordered_field_names = [''a'', ''b''],
        field_value_type = (\<lambda>f. if f = ''a'' then Enumerated [3, 1, 2] else Bounded 0 9)\<rparr> [(''x'', PyInt 1 :: unit pyobj)] = Inl (TypeError msg))
   \<and> (\<exists>fs. header_field_strategies \<lparr>class_name = ''H'', ordered_field_names = [''a'', ''b''],
        field_value_type = (\<lambda>f. if f = ''a'' then Enumerated [3, 1, 2] else Bounded 0 9)\<rparr> [(''b'', PyInt 4 :: unit pyobj)] = Inr fs
         \<and> fs ''a'' = Some (Sampled_from [1, 2, 3])
         \<and> fs ''b'' = Some (Just (PyInt 4)))"
proof -
  let ?hc = "\<lparr>class_name = ''H'', ordered_field_names = [''a'', ''b''],
        field_value_type = (\<lambda>f. if f = ''a'' then Enumerated [3, 1, 2] else Bounded 0 9)\<rparr>"
  have bad: "\<exists>msg. header ?hc [(''x'', PyInt 1 :: unit pyobj)] = Inl (TypeError msg)"
    using header_type_error_iff [of ?hc "[(''x'', PyInt 1 :: unit pyobj)]"] by simp
  have "distinct (ordered_field_names ?hc)
      \<and> fst ` set [(''b'', PyInt 4 :: unit pyobj)] \<subseteq> set (ordered_field_names ?hc)"
    by simp
  note t = header_type_error_iff [of ?hc "[(''b'', PyInt 4 :: unit pyobj)]",
      THEN conjunct2, THEN conjunct2, THEN mp, OF this]
  from t obtain fs where fs: "header_field_strategies ?hc [(''b'', PyInt 4 :: unit pyobj)] = Inr fs"
    and each: "\<forall>f \<in> set (ordered_field_names ?hc).
        fs f = Some (field_strategy ?hc [(''b'', PyInt 4 :: unit pyobj)] f)"
    by (elim exE conjE) (rule that)
  from each have a: "fs ''a'' = Some (Sampled_from [1, 2, 3])"
    and b: "fs ''b'' = Some (Just (PyInt 4))"
    by (simp_all add: field_strategy_def)
  have "\<exists>fs. header_field_strategies ?hc [(''b'', PyInt 4 :: unit pyobj)] = Inr fs
         \<and> fs ''a'' = Some (Sampled_from [1, 2, 3])
         \<and> fs ''b'' = Some (Just (PyInt 4))"
    using fs a b by (intro exI [of _ fs] conjI)
  with bad show ?thesis
    by (rule conjI)
qed

section \<open>Properties of the catalog\<close>

subsection \<open>Lookup and enumeration agree\<close>

lemma map_of_map_inj:
  assumes "inj f"
  shows "map_of (map (\<lambda>x. (f x, g x)) xs) (f k) = (if k \<in> set xs then Some (g k) else None)"
  using assms by (induction xs) (auto simp: inj_def)

lemma map_of_map_outside:
  assumes "k \<notin> range f"
  shows "map_of (map (\<lambda>x. (f x, g x)) xs) k = None"
  using assms by (induction xs) auto

lemma inj_K1: "inj K1"
  by (simp add: inj_def)

lemma K2_not_K1: "K2 i j \<notin> range K1"
  by auto

lemma inj_K2: "inj (\<lambda>(i, j). K2 i j)"
  by (auto simp: inj_def)

lemma K1_not_K2: "K1 k \<notin> range (\<lambda>(i, j). K2 i j)"
  by auto

lemma lookup_ConstantRegular:
  assumes "0 < step r"
  shows "catalog_lookup (ConstantRegular r v) k =
    (case map_of (catalog_items (ConstantRegular r v)) k of Some x \<Rightarrow> Inr x | None \<Rightarrow> Inl KeyError)"
proof -
  let ?g = "\<lambda>k :: int. PyInt v :: 'a pyobj"
  show ?thesis
  proof (cases k)
    case (K1 n)
    show ?thesis
      unfolding K1 using map_of_map_inj [OF inj_K1, of ?g "list_range r" n]
      by (simp add: list_range_member_pos [OF assms])
  next
    case (K2 i j)
    show ?thesis
      unfolding K2 using map_of_map_outside [OF K2_not_K1, of ?g "list_range r" i j]
      by simp
  qed
qed

lemma linear_items:
  assumes "0 < key_step"
  shows "catalog_items (LinearRegular key_start key_step value_start value_step n) =
    map (\<lambda>k. (K1 k, PyInt (value_start + ((k - key_start) div key_step) * value_step)))
      (list_range \<lparr>start = key_start, stop = key_start + key_step * int n, step = key_step\<rparr>)"
proof -
  have "len_range \<lparr>start = key_start, stop = key_start + key_step * int n, step = key_step\<rparr> = int n"
    using assms by (intro len_range_canonical) simp_all
  then show ?thesis
    using assms by (simp add: list_range_def)
qed

lemma lookup_LinearRegular:
  assumes "0 < key_step"
  shows "catalog_lookup (LinearRegular key_start key_step value_start value_step n) k =
    (case map_of (catalog_items (LinearRegular key_start key_step value_start value_step n)) k of
       Some x \<Rightarrow> Inr x | None \<Rightarrow> Inl KeyError)"
proof -
  let ?r = "\<lparr>start = key_start, stop = key_start + key_step * int n, step = key_step\<rparr>"
  let ?g = "\<lambda>k. PyInt (value_start + ((k - key_start) div key_step) * value_step) :: 'a pyobj"
  have st: "0 < step ?r" using assms by simp
  show ?thesis
  proof (cases k)
    case (K1 m)
    show ?thesis
      unfolding K1 linear_items [OF assms]
      using map_of_map_inj [OF inj_K1, of ?g "list_range ?r" m]
      by (simp add: list_range_member_pos [OF st] Let_def)
  next
    case (K2 i j)
    show ?thesis
      unfolding K2 linear_items [OF assms]
      using map_of_map_outside [OF K2_not_K1, of ?g "list_range ?r" i j]
      by simp
  qed
qed

lemma lookup_LinearRegular2D:
  assumes "0 < step ir" and "0 < step jr"
  shows "catalog_lookup (LinearRegular2D ir jr a b c) k =
    (case map_of (catalog_items (LinearRegular2D ir jr a b c)) k of
       Some x \<Rightarrow> Inr x | None \<Rightarrow> Inl KeyError)"
proof -
  let ?g = "\<lambda>(i, j). PyInt (a * i + b * j + c) :: 'a pyobj"
  let ?ps = "List.product (list_range ir) (list_range jr)"
  have items: "catalog_items (LinearRegular2D ir jr a b c) = map (\<lambda>p. ((\<lambda>(i, j). K2 i j) p, ?g p)) ?ps"
    by (simp add: case_prod_beta)
  show ?thesis
  proof (cases k)
    case (K1 m)
    show ?thesis
      unfolding K1 items
      using map_of_map_outside [OF K1_not_K2, of ?g ?ps m]
      by simp
  next
    case (K2 i j)
    have "K2 i j = (\<lambda>(i, j). K2 i j) (i, j)" by simp
    then have "map_of (map (\<lambda>p. ((\<lambda>(i, j). K2 i j) p, ?g p)) ?ps) (K2 i j)
        = (if (i, j) \<in> set ?ps then Some (?g (i, j)) else None)"
      using map_of_map_inj [OF inj_K2, of ?g ?ps "(i, j)"] by simp
    then show ?thesis
      unfolding K2 items
      by (simp add: list_range_member_pos [OF assms(1)] list_range_member_pos [OF assms(2)])
  qed
qed


lemma lookup_RegularKeys:
  assumes st: "0 < step r" and len: "int (length vs) = len_range r"
  shows "catalog_lookup (RegularKeys r vs) k =
    (case map_of (catalog_items (RegularKeys r vs)) k of Some x \<Rightarrow> Inr x | None \<Rightarrow> Inl KeyError)"
proof -
  let ?ks = "list_range r"
  let ?xs = "map K1 ?ks"
  let ?ys = "map PyInt vs :: 'a pyobj list"
  have l: "length ?xs = length ?ys"
    using len by (simp add: length_list_range)
  have d: "distinct ?xs"
    using st by (simp add: distinct_map distinct_list_range inj_on_def)
  show ?thesis
  proof (cases k)
    case (K2 i j)
    have "K2 i j \<notin> set ?xs" by auto
    then have "map_of (zip ?xs ?ys) (K2 i j) = None"
      using map_of_zip_is_None [OF l] by blast
    then show ?thesis
      by (simp add: K2)
  next
    case (K1 n)
    show ?thesis
    proof (cases "in_range r n")
      case False
      then have "K1 n \<notin> set ?xs"
        by (simp add: list_range_member_pos [OF st] image_iff)
      then have "map_of (zip ?xs ?ys) (K1 n) = None"
        using map_of_zip_is_None [OF l] by blast
      with False show ?thesis
        by (simp add: K1)
    next
      case True
      then have "n \<in> set ?ks"
        by (simp add: list_range_member_pos [OF st])
      then obtain i where i: "i < length ?ks" and n: "?ks ! i = n"
        by (auto simp: in_set_conv_nth)
      from n i have n': "n = start r + int i * step r"
        by (simp add: list_range_nth)
      have idx: "index_in_range r n = i"
        unfolding n' using st by (intro index_in_list_range) simp
      from i l have iv: "i < length vs" by simp
      have "?xs ! i = K1 n"
        using i n by simp
      moreover have "map_of (zip ?xs ?ys) (?xs ! i) = Some (?ys ! i)"
        using l d i by (intro map_of_zip_nth) simp_all
      ultimately have "map_of (zip ?xs ?ys) (K1 n) = Some (PyInt (vs ! i))"
        using iv by simp
      with True idx iv show ?thesis
        by (simp add: K1)
    qed
  qed
qed

lemma lookup_Arbitrary:
  "catalog_lookup (Arbitrary kvs) k =
    (case map_of (catalog_items (Arbitrary kvs)) k of Some x \<Rightarrow> Inr x | None \<Rightarrow> Inl KeyError)"
  by simp

lemma catalog_lookup_items:
  assumes "catalog_wf c"
  shows "catalog_lookup c k =
    (case map_of (catalog_items c) k of Some x \<Rightarrow> Inr x | None \<Rightarrow> Inl KeyError)"
proof (cases c)
  case (ConstantRegular r v)
  with assms show ?thesis
    by (simp only: lookup_ConstantRegular catalog_wf.simps)
next
  case (RegularKeys r vs)
  with assms show ?thesis
    by (simp only: lookup_RegularKeys catalog_wf.simps)
next
  case (LinearRegular ks kst v0 vst n)
  with assms show ?thesis
    by (simp only: lookup_LinearRegular catalog_wf.simps)
next
  case (LinearRegular2D ir jr a b c')
  with assms show ?thesis
    by (simp only: lookup_LinearRegular2D catalog_wf.simps)
next
  case (Arbitrary kvs)
  then show ?thesis
    by (simp only: lookup_Arbitrary)
qed

lemma catalog_items_distinct:
  assumes "catalog_wf c"
  shows "distinct (map fst (catalog_items c))"
proof (cases c)
  case (ConstantRegular r v)
  with assms have "distinct (list_range r)"
    by (simp add: distinct_list_range)
  then show ?thesis
    by (simp add: ConstantRegular distinct_map comp_def inj_on_def)
next
  case (RegularKeys r vs)
  with assms have "distinct (list_range r)" and "length (list_range r) = length vs"
    by (auto simp: distinct_list_range length_list_range)
  then show ?thesis
    by (simp add: RegularKeys distinct_map inj_on_def)
next
  case (LinearRegular ks kst v0 vst n)
  with assms have "0 < kst" by simp
  then show ?thesis
    by (simp add: LinearRegular distinct_map comp_def inj_on_def)
next
  case (LinearRegular2D ir jr a b c')
  with assms have "distinct (List.product (list_range ir) (list_range jr))"
    by (simp add: distinct_product distinct_list_range)
  then show ?thesis
    by (simp add: LinearRegular2D distinct_map comp_def case_prod_beta inj_on_def prod_eq_iff)
next
  case (Arbitrary kvs)
  with assms show ?thesis by simp
qed

subsection \<open>The builder\<close>

lemma traverse_Some:
  "traverse f xs = Some ys \<Longrightarrow> map f xs = map Some ys"
  by (induction xs arbitrary: ys) (auto split: option.splits)

lemma entry1_Some: "entry1 x = Some p \<Longrightarrow> x = (K1 (fst p), PyInt (snd p))"
  by (cases x rule: entry1.cases) auto

lemma entry2_Some: "entry2 x = Some p \<Longrightarrow> x = (K2 (fst (fst p)) (snd (fst p)), PyInt (snd p))"
  by (cases x rule: entry2.cases) auto

lemma traverse_entry1:
  assumes "traverse entry1 mapping = Some kvs"
  shows "mapping = map (\<lambda>p. (K1 (fst p), PyInt (snd p))) kvs"
proof -
  from traverse_Some [OF assms] have m: "map entry1 mapping = map Some kvs" .
  then have len: "length mapping = length kvs"
    by (rule map_eq_imp_length_eq)
  show ?thesis
  proof (rule nth_equalityI)
    show "length mapping = length (map (\<lambda>p. (K1 (fst p), PyInt (snd p))) kvs)"
      using len by simp
    fix i assume i: "i < length mapping"
    from m have "map entry1 mapping ! i = map Some kvs ! i" by simp
    with i len have "entry1 (mapping ! i) = Some (kvs ! i)" by simp
    from entry1_Some [OF this] i len
    show "mapping ! i = map (\<lambda>p. (K1 (fst p), PyInt (snd p))) kvs ! i"
      by simp
  qed
qed

lemma traverse_entry2:
  assumes "traverse entry2 mapping = Some ijvs"
  shows "mapping = map (\<lambda>p. (K2 (fst (fst p)) (snd (fst p)), PyInt (snd p))) ijvs"
proof -
  from traverse_Some [OF assms] have m: "map entry2 mapping = map Some ijvs" .
  then have len: "length mapping = length ijvs"
    by (rule map_eq_imp_length_eq)
  show ?thesis
  proof (rule nth_equalityI)
    show "length mapping = length (map (\<lambda>p. (K2 (fst (fst p)) (snd (fst p)), PyInt (snd p))) ijvs)"
      using len by simp
    fix i assume i: "i < length mapping"
    from m have "map entry2 mapping ! i = map Some ijvs ! i" by simp
    with i len have "entry2 (mapping ! i) = Some (ijvs ! i)" by simp
    from entry2_Some [OF this] i len
    show "mapping ! i = map (\<lambda>p. (K2 (fst (fst p)) (snd (fst p)), PyInt (snd p))) ijvs ! i"
      by simp
  qed
qed

lemma regular_range_Some:
  assumes "regular_range ks = Some r"
  shows "list_range r = ks \<and> 0 < step r"
proof (cases ks)
  case Nil
  with assms show ?thesis by (simp add: regular_range_def)
next
  case (Cons k0 rest)
  show ?thesis
  proof (cases rest)
    case Nil
    with Cons assms have r: "r = \<lparr>start = k0, stop = k0 + 1, step = 1\<rparr>"
      by (simp add: regular_range_def)
    have "len_range \<lparr>start = k0, stop = k0 + 1, step = 1\<rparr> = 1"
      by (simp add: len_range_def)
    then have "list_range \<lparr>start = k0, stop = k0 + 1, step = 1\<rparr> = [k0]"
      by (simp add: list_range_def)
    then show ?thesis
      using Cons Nil r by simp
  next
    case (Cons k1 rest')
    with \<open>ks = k0 # rest\<close> assms show ?thesis
      by (auto simp: regular_range_def Let_def split: if_splits)
  qed
qed

lemma len_range_nonneg:
  assumes "0 < step r"
  shows "0 \<le> len_range r"
proof (cases "start r < stop r")
  case True
  then have "0 \<le> (stop r - start r - 1) div step r"
    using assms by (simp add: pos_imp_zdiv_nonneg_iff)
  with True assms show ?thesis
    by (simp add: len_range_pos_step)
next
  case False
  with assms show ?thesis
    by (simp add: len_range_pos_step)
qed

lemma create1_result:
  fixes mapping :: "(key \<times> 'a pyobj) list"
  assumes d: "distinct (map fst mapping)"
  shows "catalog_wf (create1 mapping kvs)
    \<and> (catalog_items (create1 mapping kvs) = mapping
        \<or> catalog_items (create1 mapping kvs)
            = map (\<lambda>p. (K1 (fst p), PyInt (snd p))) (sort_key fst kvs))"
proof -
  define s where "s = sort_key fst kvs"
  define ks where "ks = map fst s"
  define vs where "vs = map snd s"
  let ?emb = "\<lambda>p :: int \<times> int. (K1 (fst p), PyInt (snd p) :: 'a pyobj)"
  have zip: "zip ks vs = s"
    by (simp add: ks_def vs_def zip_map_fst_snd)
  have len: "length ks = length s" "length vs = length s"
    by (simp_all add: ks_def vs_def)
  have c: "create1 mapping kvs =
     (case regular_range ks of
        None \<Rightarrow> Arbitrary mapping
      | Some r \<Rightarrow>
          (case vs of
             [] \<Rightarrow> Arbitrary mapping
           | v0 # rest \<Rightarrow>
               if list_all (\<lambda>v. v = v0) rest then ConstantRegular r v0
               else
                 (let value_step = hd rest - v0 in
                  if vs = map (\<lambda>i. v0 + int i * value_step) [0..<length vs]
                  then LinearRegular (start r) (step r) v0 value_step (length ks)
                  else RegularKeys r vs)))"
    unfolding create1_def Let_def ks_def vs_def s_def by (rule refl)
  show ?thesis
  proof (cases "regular_range ks")
    case None
    with d show ?thesis by (simp add: c)
  next
    case (Some r)
    from regular_range_Some [OF Some] have r: "list_range r = ks" and st: "0 < step r"
      by simp_all
    show ?thesis
    proof (cases vs)
      case Nil
      with Some d show ?thesis by (simp add: c)
    next
      case (Cons v0 rest)
      define value_step where "value_step = hd rest - v0"
      have c2: "create1 mapping kvs =
         (if list_all (\<lambda>v. v = v0) rest then ConstantRegular r v0
          else if vs = map (\<lambda>i. v0 + int i * value_step) [0..<length vs]
               then LinearRegular (start r) (step r) v0 value_step (length ks)
               else RegularKeys r vs)"
        by (simp only: c Some option.simps Cons list.simps Let_def value_step_def)
      show ?thesis
      proof (cases "list_all (\<lambda>v. v = v0) rest")
        case True
        then have allv: "\<forall>v \<in> set vs. v = v0"
          by (simp add: Cons list_all_iff)
        have cc: "create1 mapping kvs = ConstantRegular r v0"
          by (subst c2, subst if_P [OF True], rule refl)
        have "map (\<lambda>k. (K1 k, PyInt v0 :: 'a pyobj)) ks = map ?emb s"
          unfolding ks_def map_map comp_def
        proof (rule map_cong [OF refl])
          fix p assume "p \<in> set s"
          then have "snd p \<in> set vs" by (simp add: vs_def)
          with allv show "(K1 (fst p), PyInt v0 :: 'a pyobj) = (K1 (fst p), PyInt (snd p))"
            by simp
        qed
        then show ?thesis
          using st by (simp add: cc r s_def)
      next
        case False
        show ?thesis
        proof (cases "vs = map (\<lambda>i. v0 + int i * value_step) [0..<length vs]")
          case True
          have cc: "create1 mapping kvs = LinearRegular (start r) (step r) v0 value_step (length ks)"
            by (subst c2, subst if_not_P [OF False], subst if_P [OF True], rule refl)
          have "map (\<lambda>i. (K1 (start r + int i * step r), PyInt (v0 + int i * value_step) :: 'a pyobj))
              [0..<length ks] = map ?emb s"
          proof (rule nth_equalityI)
            show "length (map (\<lambda>i. (K1 (start r + int i * step r), PyInt (v0 + int i * value_step) :: 'a pyobj))
              [0..<length ks]) = length (map ?emb s)"
              by (simp add: len)
            fix i
            assume "i < length (map (\<lambda>i. (K1 (start r + int i * step r), PyInt (v0 + int i * value_step) :: 'a pyobj))
              [0..<length ks])"
            then have i: "i < length ks" by simp
            then have "ks ! i = start r + int i * step r"
              using list_range_nth [of i r] by (simp add: r)
            moreover have "vs ! i = v0 + int i * value_step"
              using i len by (subst True) simp
            moreover have "s ! i = (ks ! i, vs ! i)"
              using i len by (simp add: ks_def vs_def)
            ultimately show "map (\<lambda>i. (K1 (start r + int i * step r), PyInt (v0 + int i * value_step) :: 'a pyobj))
              [0..<length ks] ! i = map ?emb s ! i"
              using i len by simp
          qed
          then show ?thesis
            using st by (simp add: cc s_def)
        next
          case nonlinear: False
          have cc: "create1 mapping kvs = RegularKeys r vs"
            by (subst c2, subst if_not_P [OF False], subst if_not_P [OF nonlinear], rule refl)
          have "zip (map K1 ks) (map PyInt vs :: 'a pyobj list) = map ?emb (zip ks vs)"
            by (simp add: zip_map_map case_prod_beta)
          then have items: "catalog_items (RegularKeys r vs :: 'a catalog) = map ?emb s"
            by (simp add: r zip)
          have "length vs = nat (len_range r)"
            using len r length_list_range [of r] by simp
          then have "int (length vs) = len_range r"
            using len_range_nonneg [OF st] by simp
          then show ?thesis
            using st items by (simp add: cc s_def)
        qed
      qed
    qed
  qed
qed

lemma create2_result:
  fixes mapping :: "(key \<times> 'a pyobj) list"
  assumes d: "distinct (map fst mapping)" and dk: "distinct (map fst ijvs)"
  shows "catalog_wf (create2 mapping ijvs)
    \<and> (catalog_items (create2 mapping ijvs) = mapping
        \<or> set (catalog_items (create2 mapping ijvs))
            = (\<lambda>p. (K2 (fst (fst p)) (snd (fst p)), PyInt (snd p))) ` set ijvs)"
proof -
  define ivals where "ivals = sort (remdups (map (fst \<circ> fst) ijvs))"
  define jvals where "jvals = sort (remdups (map (snd \<circ> fst) ijvs))"
  define a where "a = corner_slope ijvs (hd ivals, hd jvals) (last ivals, hd jvals)"
  define b where "b = corner_slope ijvs (hd ivals, hd jvals) (hd ivals, last jvals)"
  define c where "c = (case map_of ijvs (hd ivals, hd jvals) of
      Some v0 \<Rightarrow> v0 - a * hd ivals - b * hd jvals | None \<Rightarrow> 0)"
  let ?emb = "\<lambda>p :: (int \<times> int) \<times> int. (K2 (fst (fst p)) (snd (fst p)), PyInt (snd p) :: 'a pyobj)"
  let ?val = "\<lambda>q :: int \<times> int. (K2 (fst q) (snd q), PyInt (a * fst q + b * snd q + c) :: 'a pyobj)"
  have cr: "create2 mapping ijvs =
     (case (regular_range ivals, regular_range jvals) of
           (Some ir, Some jr) \<Rightarrow>
             if length ijvs = length ivals * length jvals then
               if list_all (\<lambda>((i, j), v). a * i + b * j + c = v) ijvs
                   then LinearRegular2D ir jr a b c
                   else Arbitrary mapping
             else Arbitrary mapping
         | _ \<Rightarrow> Arbitrary mapping)"
    unfolding create2_def Let_def c_def b_def a_def jvals_def ivals_def by (rule refl)
  have arb: ?thesis if "create2 mapping ijvs = Arbitrary mapping"
    using that d by simp
  show ?thesis
  proof (cases "regular_range ivals")
    case None
    then show ?thesis by (intro arb) (simp add: cr)
  next
    case ir: (Some ir)
    show ?thesis
    proof (cases "regular_range jvals")
      case None
      then show ?thesis by (intro arb) (simp add: cr ir)
    next
      case jr: (Some jr)
      show ?thesis
      proof (cases "length ijvs = length ivals * length jvals
          \<and> list_all (\<lambda>((i, j), v). a * i + b * j + c = v) ijvs")
        case False
        then show ?thesis by (intro arb) (auto simp: cr ir jr)
      next
        case True
        then have full: "length ijvs = length ivals * length jvals"
          and fit: "\<forall>p \<in> set ijvs. a * fst (fst p) + b * snd (fst p) + c = snd p"
          by (auto simp: list_all_iff)
        have cc: "create2 mapping ijvs = LinearRegular2D ir jr a b c"
          using True by (simp add: cr ir jr)
        from regular_range_Some [OF ir] have ri: "list_range ir = ivals" and si: "0 < step ir"
          by simp_all
        from regular_range_Some [OF jr] have rj: "list_range jr = jvals" and sj: "0 < step jr"
          by simp_all
        have di: "distinct ivals" and dj: "distinct jvals"
          by (simp_all add: ivals_def jvals_def)
        have sub: "fst ` set ijvs \<subseteq> set ivals \<times> set jvals"
          by (force simp: ivals_def jvals_def image_iff)
        have "card (fst ` set ijvs) = length ijvs"
          using distinct_card [OF dk] by simp
        moreover have "card (set ivals \<times> set jvals) = length ivals * length jvals"
          using di dj by (simp add: card_cartesian_product distinct_card)
        ultimately have "card (fst ` set ijvs) = card (set ivals \<times> set jvals)"
          using full by simp
        with sub have keys: "fst ` set ijvs = set ivals \<times> set jvals"
          by (intro card_subset_eq) simp_all
        have "set (catalog_items (LinearRegular2D ir jr a b c :: 'a catalog))
            = ?val ` (set ivals \<times> set jvals)"
          by (simp add: ri rj case_prod_beta)
        also have "\<dots> = ?val ` fst ` set ijvs"
          by (simp only: keys)
        also have "\<dots> = ?emb ` set ijvs"
          unfolding image_image using fit by (intro image_cong refl) simp
        finally show ?thesis
          using si sj by (simp add: cc)
      qed
    qed
  qed
qed

lemma create_result:
  fixes mapping :: "(key \<times> 'a pyobj) list"
  assumes d: "distinct (map fst mapping)"
  shows "catalog_wf (create mapping) \<and> set (catalog_items (create mapping)) = set mapping"
proof (cases "traverse entry1 mapping")
  case (Some kvs)
  let ?emb = "\<lambda>p :: int \<times> int. (K1 (fst p), PyInt (snd p) :: 'a pyobj)"
  have c: "create mapping = create1 mapping kvs"
    by (simp add: create_def Some)
  from traverse_entry1 [OF Some] have m: "mapping = map ?emb kvs" .
  have "set mapping = set (map ?emb kvs)"
    using m by (rule arg_cong)
  then have "set (map ?emb (sort_key fst kvs)) = set mapping"
    by simp
  with create1_result [OF d, of kvs] show ?thesis
    unfolding c by auto
next
  case None
  show ?thesis
  proof (cases "traverse entry2 mapping")
    case (Some ijvs)
    let ?emb = "\<lambda>p :: (int \<times> int) \<times> int. (K2 (fst (fst p)) (snd (fst p)), PyInt (snd p) :: 'a pyobj)"
    have c: "create mapping = create2 mapping ijvs"
      by (simp add: create_def None Some)
    from traverse_entry2 [OF Some] have m: "mapping = map ?emb ijvs" .
    have "map fst mapping = map fst (map ?emb ijvs)"
      using m by (rule arg_cong)
    then have "map fst mapping = map (\<lambda>q. K2 (fst q) (snd q)) (map fst ijvs)"
      by (simp add: comp_def)
    with d have "distinct (map (\<lambda>q. K2 (fst q) (snd q)) (map fst ijvs))"
      by simp
    then have dk: "distinct (map fst ijvs)"
      using distinct_map [of "\<lambda>q. K2 (fst q) (snd q)" "map fst ijvs"] by blast
    have "set mapping = set (map ?emb ijvs)"
      using m by (rule arg_cong)
    then have "?emb ` set ijvs = set mapping"
      by simp
    with create2_result [OF d dk] show ?thesis
      unfolding c by auto
  next
    case n2: None
    have "create mapping = Arbitrary mapping"
      by (simp add: create_def None n2)
    with d show ?thesis by simp
  qed
qed

text \<open>
  C1: for every mapping (a list of pairs with distinct keys, the keys integers or pairs
  of integers), the catalog the builder creates enumerates exactly the pairs of the
  mapping, no pair twice and no key twice; looking up a key of the mapping yields
  the value the mapping has for it, and looking up any other key is Key-Not-Found.
\<close>

theorem catalog_round_trip:
  assumes "distinct (map fst mapping)"
  shows "set (catalog_items (create mapping)) = set mapping
    \<and> distinct (map fst (catalog_items (create mapping)))
    \<and> distinct (catalog_items (create mapping))
    \<and> (\<forall>k v. (k, v) \<in> set mapping \<longrightarrow> catalog_lookup (create mapping) k = Inr v)
    \<and> (\<forall>k. k \<notin> fst ` set mapping \<longrightarrow> catalog_lookup (create mapping) k = Inl KeyError)"
proof -
  from create_result [OF assms] have wf: "catalog_wf (create mapping)"
    and items: "set (catalog_items (create mapping)) = set mapping"
    by simp_all
  have dk: "distinct (map fst (catalog_items (create mapping)))"
    using wf by (rule catalog_items_distinct)
  then have di: "distinct (catalog_items (create mapping))"
    by (simp add: distinct_map)
  have same: "map_of (catalog_items (create mapping)) = map_of mapping"
    using dk assms items by (simp add: map_of_inject_set)
  have look: "catalog_lookup (create mapping) k =
      (case map_of mapping k of Some x \<Rightarrow> Inr x | None \<Rightarrow> Inl KeyError)" for k
    using catalog_lookup_items [OF wf, of k] by (simp add: same)
  have present: "catalog_lookup (create mapping) k = Inr v" if "(k, v) \<in> set mapping" for k v
    using that assms by (simp add: look)
  have absent: "catalog_lookup (create mapping) k = Inl KeyError" if "k \<notin> fst ` set mapping" for k
    using that by (simp add: look map_of_eq_None_iff [THEN iffD2])
  show ?thesis
    using items dk di present absent by blast
qed

text \<open>The builder on small mappings: one of each class, and the empty mapping.\<close>

lemma create_examples:
  "create [(K1 5, PyInt 7 :: unit pyobj)] = ConstantRegular \<lparr>start = 5, stop = 6, step = 1\<rparr> 7"
  "create [(K1 5, PyInt 7 :: unit pyobj), (K1 1, PyInt 3), (K1 3, PyInt 5)] = LinearRegular 1 2 3 2 3"
  "create [(K1 5, PyInt 7 :: unit pyobj), (K1 1, PyInt 3), (K1 3, PyInt 6)]
     = RegularKeys \<lparr>start = 1, stop = 7, step = 2\<rparr> [3, 6, 7]"
  "create [(K2 0 0, PyInt 1 :: unit pyobj), (K2 0 1, PyInt 2), (K2 2 0, PyInt 7), (K2 2 1, PyInt 8)]
     = LinearRegular2D \<lparr>start = 0, stop = 4, step = 2\<rparr> \<lparr>start = 0, stop = 2, step = 1\<rparr> 3 1 1"
  "create [(K1 5, PyInt 7 :: unit pyobj), (K1 1, PyInt 3), (K1 4, PyInt 6)]
     = Arbitrary [(K1 5, PyInt 7), (K1 1, PyInt 3), (K1 4, PyInt 6)]"
  "create ([] :: (key \<times> unit pyobj) list) = Arbitrary []"
  by code_simp+

theorem catalog_round_trip_witness:
  "distinct (map fst [(K1 5, PyInt 7 :: unit pyobj), (K1 1, PyInt 3), (K1 3, PyInt 5)])
   \<and> set (catalog_items (create [(K1 5, PyInt 7 :: unit pyobj), (K1 1, PyInt 3), (K1 3, PyInt 5)]))
       = {(K1 5, PyInt 7), (K1 1, PyInt 3), (K1 3, PyInt 5)}
   \<and> catalog_lookup (create [(K1 5, PyInt 7 :: unit pyobj), (K1 1, PyInt 3), (K1 3, PyInt 5)]) (K1 3)
       = Inr (PyInt 5)
   \<and> catalog_lookup (create [(K1 5, PyInt 7 :: unit pyobj), (K1 1, PyInt 3), (K1 3, PyInt 5)]) (K1 2)
       = Inl KeyError"
proof -
  have d: "distinct (map fst [(K1 5, PyInt 7 :: unit pyobj), (K1 1, PyInt 3), (K1 3, PyInt 5)])"
    by simp
  from catalog_round_trip [OF d] d show ?thesis
    by simp
qed

end
